theory Spec2Isabelle
  imports Complex_Main "HOL-Library.Log_Nat" "HOL-Library.Word"
begin

section \<open>Binary64 arithmetic as used by \<open>moveStep\<close>\<close>

text \<open>
  \<open>moveStep\<close> computes its ramp in C++ \<open>double\<close> (the literal \<open>1.0\<close> promotes the
  whole product) and converts the result back to \<open>int\<close>. A finite double is a
  rational number, and every IEEE 754 operation returns the exact rational result
  rounded to the nearest double, ties to the even significand. The rounding is modelled
  on \<open>rat\<close>: the value is scaled so that its integer part has 53 bits (or to the fixed
  subnormal scale \<open>2 powi 1074\<close>), rounded half-even, and scaled back. Overflow to
  infinity is not modelled: no operand of \<open>moveStep\<close> exceeds 150.
\<close>

definition round_half_even :: "rat \<Rightarrow> int" where
  "round_half_even y =
     (let f = \<lfloor>y\<rfloor>; r = y - of_int f
      in if r < 1 / 2 then f
         else if 1 / 2 < r then f + 1
         else if even f then f else f + 1)"

text \<open>The binary exponent \<open>e\<close> of a positive rational: \<open>2 powi e \<le> x < 2 powi (e + 1)\<close>.\<close>

definition binade :: "rat \<Rightarrow> int" where
  "binade x =
     (let (p, q) = quotient_of x; d = bitlen p - bitlen q
      in if of_int q * (2::rat) powi d \<le> of_int p then d else d - 1)"

definition round_double :: "rat \<Rightarrow> rat" where
  "round_double x =
     (if x = 0 then 0
      else let a = \<bar>x\<bar>;
               k = min (52 - binade a) 1074
           in sgn x * of_int (round_half_even (a * 2 powi k)) / 2 powi k)"

text \<open>Conversion \<open>int\<close> to \<open>double\<close> is exact: a 32-bit \<open>int\<close> fits the 53-bit significand.\<close>

definition double_of_int :: "int \<Rightarrow> rat" where
  "double_of_int n = of_int n"

definition dmul :: "rat \<Rightarrow> rat \<Rightarrow> rat" where
  "dmul a b = round_double (a * b)"

definition ddiv :: "rat \<Rightarrow> rat \<Rightarrow> rat" where
  "ddiv a b = round_double (a / b)"

definition dadd :: "rat \<Rightarrow> rat \<Rightarrow> rat" where
  "dadd a b = round_double (a + b)"

text \<open>Conversion \<open>double\<close> to \<open>int\<close> discards the fractional part (truncation towards zero).\<close>

definition int_of_double :: "rat \<Rightarrow> int" where
  "int_of_double x = (if 0 \<le> x then \<lfloor>x\<rfloor> else \<lceil>x\<rceil>)"


section \<open>The acceleration curve\<close>

definition MIN_STEP :: int where "MIN_STEP = 1"
definition MAX_STEP :: int where "MAX_STEP = 10"
definition MIN_POINT :: int where "MIN_POINT = 50"
definition MAX_POINT :: int where "MAX_POINT = 200"

text \<open>
  \<^verbatim>\<open>static int moveStep(int times)\<close>, main.cpp lines 233-252. The middle branch is
  \<^verbatim>\<open>MIN_STEP + (times - MIN_POINT) * 1.0 / (MAX_POINT - MIN_POINT) * (MAX_STEP - MIN_STEP)\<close>:
  \<open>*\<close> and \<open>/\<close> associate to the left, the sum is taken last, and the \<open>double\<close> is
  converted to the \<open>int\<close> return type. The integer subtractions cannot overflow in
  their branch.
\<close>

definition moveStep :: "int \<Rightarrow> int" where
  "moveStep tms =
     (if tms \<le> MIN_POINT then MIN_STEP
      else if tms \<le> MAX_POINT then
        int_of_double
          (dadd (double_of_int MIN_STEP)
             (dmul (ddiv (dmul (double_of_int (tms - MIN_POINT)) 1)
                         (double_of_int (MAX_POINT - MIN_POINT)))
                   (double_of_int (MAX_STEP - MIN_STEP))))
      else MAX_STEP)"

text \<open>
  The curve as the specification words it: constant 1 up to 50 ticks, then the exact
  linear interpolation \<open>1 + (t - 50) / (200 - 50) * (10 - 1)\<close> over the rationals
  truncated to an integer, then constant 10.
\<close>

definition step_spec :: "int \<Rightarrow> int" where
  "step_spec t =
     (if t \<le> 50 then 1
      else if t \<le> 200 then \<lfloor>1 + (of_int (t - 50) :: rat) / (200 - 50) * (10 - 1)\<rfloor>
      else 10)"


section \<open>Shared state of the engine\<close>

definition UP :: nat where "UP = 0"
definition DOWN :: nat where "DOWN = 1"
definition LEFT :: nat where "LEFT = 2"
definition RIGHT :: nat where "RIGHT = 3"
definition DIRECTION_NUM :: nat where "DIRECTION_NUM = 4"

text \<open>
  The globals \<^verbatim>\<open>numlockOn\<close>, \<^verbatim>\<open>isMoving[DIRECTION_NUM]\<close> and
  \<^verbatim>\<open>std::atomic_int moveTimes[DIRECTION_NUM]\<close> (lines 207-221). The arrays are lists of
  length \<open>DIRECTION_NUM\<close>; a counter is a 32-bit word, so that \<^verbatim>\<open>moveTimes[i]++\<close>
  wraps as \<^verbatim>\<open>std::atomic_int\<close> does.
\<close>

record state =
  numlockOn :: bool
  isMoving :: "bool list"
  moveTimes :: "32 word list"

definition state_ok :: "state \<Rightarrow> bool" where
  "state_ok s \<longleftrightarrow>
     length (isMoving s) = DIRECTION_NUM \<and> length (moveTimes s) = DIRECTION_NUM"

text \<open>
  \<^verbatim>\<open>struct input_event\<close> of \<^verbatim>\<open><linux/input.h>\<close> without its timestamp:
  \<^verbatim>\<open>__u16 type; __u16 code; __s32 value\<close>.
\<close>

record input_event =
  ev_type :: "16 word"
  ev_code :: "16 word"
  ev_value :: "32 word"

text \<open>Event types and codes, with their values in \<^verbatim>\<open><linux/input-event-codes.h>\<close>.\<close>

definition EV_SYN :: "16 word" where "EV_SYN = 0x00"
definition EV_KEY :: "16 word" where "EV_KEY = 0x01"
definition EV_REL :: "16 word" where "EV_REL = 0x02"
definition EV_LED :: "16 word" where "EV_LED = 0x11"
definition KEY_KP8 :: "16 word" where "KEY_KP8 = 72"
definition KEY_KP4 :: "16 word" where "KEY_KP4 = 75"
definition KEY_KP6 :: "16 word" where "KEY_KP6 = 77"
definition KEY_KP2 :: "16 word" where "KEY_KP2 = 80"
definition LED_NUML :: "16 word" where "LED_NUML = 0x00"
definition REL_X :: "16 word" where "REL_X = 0x00"
definition REL_Y :: "16 word" where "REL_Y = 0x01"
definition SYN_REPORT :: "16 word" where "SYN_REPORT = 0"

text \<open>\<^verbatim>\<open>ENSURE\<close> (line 23) calls \<^verbatim>\<open>err(EXIT_FAILURE, ...)\<close>: the process ends.\<close>

datatype fatal = Exit_Failure

text \<open>\<^verbatim>\<open>resetMoveTimes\<close>, lines 223-229.\<close>

definition resetMoveTimes :: "state \<Rightarrow> state" where
  "resetMoveTimes s =
     fold (\<lambda>i s. s\<lparr>moveTimes := (moveTimes s)[i := 0]\<rparr>) [0..<DIRECTION_NUM] s"

text \<open>
  \<^verbatim>\<open>setIsMoving(int index, int value)\<close>, lines 257-264. \<open>value\<close> is an \<open>int\<close> that the
  assignment converts to \<open>bool\<close>; the counter is cleared only under \<^verbatim>\<open>if (!value)\<close>.
  Every caller passes an index below \<open>DIRECTION_NUM\<close>.
\<close>

definition setIsMoving :: "nat \<Rightarrow> 32 word \<Rightarrow> state \<Rightarrow> state" where
  "setIsMoving index v s =
     (let s1 = s\<lparr>isMoving := (isMoving s)[index := (v \<noteq> 0)]\<rparr>
      in if v = 0 then s1\<lparr>moveTimes := (moveTimes s1)[index := 0]\<rparr> else s1)"

text \<open>
  \<^verbatim>\<open>keyAction(int index, int value)\<close>, lines 266-281: the range check is fatal, a press
  passes \<^verbatim>\<open>true\<close> (1), a release \<^verbatim>\<open>false\<close> (0), any other value does nothing.
\<close>

definition keyAction :: "int \<Rightarrow> 32 word \<Rightarrow> state \<Rightarrow> fatal + state" where
  "keyAction index v s =
     (if \<not> (0 \<le> index \<and> index < int DIRECTION_NUM) then Inl Exit_Failure
      else if v = 1 then Inr (setIsMoving (nat index) 1 s)
      else if v = 0 then Inr (setIsMoving (nat index) 0 s)
      else Inr s)"

text \<open>\<^verbatim>\<open>handleKeyEvent\<close>, lines 283-303.\<close>

definition handleKeyEvent :: "input_event \<Rightarrow> state \<Rightarrow> fatal + state" where
  "handleKeyEvent ev s =
     (if numlockOn s then Inr s
      else
        let index =
              (if ev_code ev = KEY_KP8 then int UP
               else if ev_code ev = KEY_KP2 then int DOWN
               else if ev_code ev = KEY_KP4 then int LEFT
               else if ev_code ev = KEY_KP6 then int RIGHT
               else - 1)
        in if index \<noteq> - 1 then keyAction index (ev_value ev) s else Inr s)"

text \<open>\<^verbatim>\<open>handleLEDEvent\<close>, lines 305-322.\<close>

definition handleLEDEvent :: "input_event \<Rightarrow> state \<Rightarrow> state" where
  "handleLEDEvent ev s =
     (if ev_code ev = LED_NUML then
        if ev_value ev = 0 then s\<lparr>numlockOn := False\<rparr>
        else if ev_value ev = 1 then
          fold (\<lambda>i. setIsMoving i 0) [0..<DIRECTION_NUM] (s\<lparr>numlockOn := True\<rparr>)
        else s
      else s)"

text \<open>\<^verbatim>\<open>handleEvent\<close>, lines 324-334.\<close>

definition handleEvent :: "input_event \<Rightarrow> state \<Rightarrow> fatal + state" where
  "handleEvent ev s =
     (if ev_type ev = EV_KEY then handleKeyEvent ev s
      else if ev_type ev = EV_LED then Inr (handleLEDEvent ev s)
      else Inr s)"

text \<open>\<^verbatim>\<open>incMoveTimes\<close>, lines 381-390.\<close>

definition incMoveTimes :: "state \<Rightarrow> state" where
  "incMoveTimes s =
     fold (\<lambda>i s. if isMoving s ! i
                  then s\<lparr>moveTimes := (moveTimes s)[i := moveTimes s ! i + 1]\<rparr>
                  else s)
          [0..<DIRECTION_NUM] s"

text \<open>
  \<^verbatim>\<open>calcMoveSteps(int *steps)\<close>, lines 392-413, run without interference from the
  dispatch loop: first the loop over the directions, then the two tests for opposite
  keys. \<open>moveStep\<close> receives the counter read as a signed \<open>int\<close>.
\<close>

definition calcMoveSteps :: "state \<Rightarrow> int list \<Rightarrow> int list" where
  "calcMoveSteps s steps =
     (let st0 = fold (\<lambda>i st. if isMoving s ! i
                              then st[i := moveStep (sint (moveTimes s ! i))]
                              else st)
                     [0..<DIRECTION_NUM] steps;
          st1 = (if isMoving s ! UP \<and> isMoving s ! DOWN
                 then st0[UP := 0, DOWN := 0] else st0);
          st2 = (if isMoving s ! LEFT \<and> isMoving s ! RIGHT
                 then st1[LEFT := 0, RIGHT := 0] else st1)
      in st2)"

text \<open>
  \<^verbatim>\<open>sizeof(struct input_event)\<close> on 64-bit Linux: a 16-byte \<^verbatim>\<open>timeval\<close> and 8 bytes
  of type, code and value.
\<close>

definition sizeof_input_event :: nat where
  "sizeof_input_event = 24"

text \<open>
  \<^verbatim>\<open>writeDevice(int *steps)\<close>, lines 416-437. The three records are built and handed
  to one \<^verbatim>\<open>write\<close> call; \<open>ret\<close> is what that call returned, supplied by the
  environment. \<^verbatim>\<open>ENSURE(ret == sizeof(ev))\<close> compares after converting \<open>ret\<close> to
  \<^verbatim>\<open>size_t\<close>, so a negative \<open>ret\<close> never equals the size. On success the result is
  the emitted triple.
\<close>

definition writeDevice :: "int list \<Rightarrow> int \<Rightarrow> fatal + input_event list" where
  "writeDevice steps ret =
     (let x = steps ! RIGHT - steps ! LEFT;
          y = steps ! DOWN - steps ! UP;
          ev = [\<lparr>ev_type = EV_REL, ev_code = REL_X, ev_value = word_of_int x\<rparr>,
                \<lparr>ev_type = EV_REL, ev_code = REL_Y, ev_value = word_of_int y\<rparr>,
                \<lparr>ev_type = EV_SYN, ev_code = SYN_REPORT, ev_value = 0\<rparr>]
      in if ret = int (length ev * sizeof_input_event) then Inr ev
         else Inl Exit_Failure)"

text \<open>\<^verbatim>\<open>moveMouse\<close>, lines 439-445: one tick, with \<^verbatim>\<open>int steps[DIRECTION_NUM] = { 0 }\<close>.\<close>

definition moveMouse :: "state \<Rightarrow> int \<Rightarrow> fatal + (state \<times> input_event list)" where
  "moveMouse s ret =
     (let s1 = incMoveTimes s;
          steps = calcMoveSteps s1 (replicate DIRECTION_NUM 0)
      in case writeDevice steps ret of
           Inl e \<Rightarrow> Inl e
         | Inr out \<Rightarrow> Inr (s1, out))"

text \<open>
  \<^verbatim>\<open>moveMouseThread\<close>, lines 447-458: \<^verbatim>\<open>while (true) { moveMouse(); usleep(...); }\<close>.
  The loop is driven by the list of results of its successive \<^verbatim>\<open>write\<close> calls; it
  yields the emissions written so far and either the fatal exit or the state reached
  when the list is used up.
\<close>

fun moveMouseThread :: "state \<Rightarrow> int list \<Rightarrow> input_event list list \<times> (fatal + state)" where
  "moveMouseThread s [] = ([], Inr s)"
| "moveMouseThread s (ret # rets) =
     (case moveMouse s ret of
        Inl e \<Rightarrow> ([], Inl e)
      | Inr (s', out) \<Rightarrow>
          (let (outs, r) = moveMouseThread s' rets in (out # outs, r)))"


section \<open>Engine start\<close>

text \<open>
  The state at engine start: the static initialisers (all flags false, all counters
  zero), \<^verbatim>\<open>numlockOn = queryNumlock()\<close> and \<^verbatim>\<open>resetMoveTimes()\<close> in \<open>main\<close>. The
  result of the capability query is a parameter.
\<close>

definition engine_start :: "bool \<Rightarrow> state" where
  "engine_start numlock =
     resetMoveTimes
       \<lparr>numlockOn = numlock,
        isMoving = replicate DIRECTION_NUM False,
        moveTimes = replicate DIRECTION_NUM 0\<rparr>"

section \<open>The two threads, one shared access at a time\<close>

text \<open>
  \<open>main\<close> starts \<open>moveMouseThread\<close> with \<^verbatim>\<open>pthread_create\<close> (line 487) and then handles
  keyboard events itself; no lock guards \<open>isMoving\<close> or \<open>moveTimes\<close>. The two threads
  are therefore run one access to the shared arrays at a time, in program order.

  The tick thread is at one of these points of \<open>moveMouse\<close>: the test of line 385 and
  the increment of line 387 in \<open>incMoveTimes\<close>, the test of line 396 and the read of
  line 398 in the loop of \<open>calcMoveSteps\<close>, the four reads of \<open>isMoving\<close> in the tests of
  lines 403 and 408 (\<^verbatim>\<open>&&\<close> reads its right operand only when the left one is true), and
  the \<^verbatim>\<open>write\<close> of \<open>writeDevice\<close>. Its local array \<open>steps\<close> is \<open>tsteps\<close>.
\<close>

datatype pc =
    Inc_test nat | Inc_do nat
  | Calc_test nat | Calc_read nat
  | Test_up | Test_down | Test_left | Test_right
  | Write_device

record ticker =
  tpc :: pc
  tsteps :: "int list"

text \<open>The tick thread at the start of \<open>moveMouse\<close>, with \<^verbatim>\<open>steps = { 0 }\<close>.\<close>

definition ticker_idle :: ticker where
  "ticker_idle = \<lparr>tpc = Inc_test 0, tsteps = replicate DIRECTION_NUM 0\<rparr>"

text \<open>
  The dispatch thread changes the shared state by single stores: \<^verbatim>\<open>isMoving[index] = value\<close>
  (line 259), \<^verbatim>\<open>moveTimes[index] = 0\<close> (line 262) and the assignments to \<open>numlockOn\<close>
  (lines 311, 315). Each handler is given once more as the list of stores it performs,
  in order; \<open>numlockOn\<close> is read and written by the dispatch thread only.
\<close>

datatype store = Store_isMoving nat bool | Store_moveTimes nat | Store_numlockOn bool

fun apply_store :: "store \<Rightarrow> state \<Rightarrow> state" where
  "apply_store (Store_isMoving i b) s = s\<lparr>isMoving := (isMoving s)[i := b]\<rparr>"
| "apply_store (Store_moveTimes i) s = s\<lparr>moveTimes := (moveTimes s)[i := 0]\<rparr>"
| "apply_store (Store_numlockOn b) s = s\<lparr>numlockOn := b\<rparr>"

definition setIsMoving_stores :: "nat \<Rightarrow> 32 word \<Rightarrow> store list" where
  "setIsMoving_stores index v =
     Store_isMoving index (v \<noteq> 0) # (if v = 0 then [Store_moveTimes index] else [])"

definition keyAction_stores :: "int \<Rightarrow> 32 word \<Rightarrow> fatal + store list" where
  "keyAction_stores index v =
     (if \<not> (0 \<le> index \<and> index < int DIRECTION_NUM) then Inl Exit_Failure
      else if v = 1 then Inr (setIsMoving_stores (nat index) 1)
      else if v = 0 then Inr (setIsMoving_stores (nat index) 0)
      else Inr [])"

definition handleKeyEvent_stores :: "input_event \<Rightarrow> state \<Rightarrow> fatal + store list" where
  "handleKeyEvent_stores ev s =
     (if numlockOn s then Inr []
      else
        let index =
              (if ev_code ev = KEY_KP8 then int UP
               else if ev_code ev = KEY_KP2 then int DOWN
               else if ev_code ev = KEY_KP4 then int LEFT
               else if ev_code ev = KEY_KP6 then int RIGHT
               else - 1)
        in if index \<noteq> - 1 then keyAction_stores index (ev_value ev) else Inr [])"

definition handleLEDEvent_stores :: "input_event \<Rightarrow> store list" where
  "handleLEDEvent_stores ev =
     (if ev_code ev = LED_NUML then
        if ev_value ev = 0 then [Store_numlockOn False]
        else if ev_value ev = 1 then
          Store_numlockOn True # concat (map (\<lambda>i. setIsMoving_stores i 0) [0..<DIRECTION_NUM])
        else []
      else [])"

definition handleEvent_stores :: "input_event \<Rightarrow> state \<Rightarrow> fatal + store list" where
  "handleEvent_stores ev s =
     (if ev_type ev = EV_KEY then handleKeyEvent_stores ev s
      else if ev_type ev = EV_LED then Inr (handleLEDEvent_stores ev)
      else Inr [])"

text \<open>
  A configuration of the running engine: the shared globals, the tick thread, the
  stores that the dispatch thread has still to perform for the event it is handling,
  and the emissions written to the device so far.
\<close>

record config =
  shared :: state
  tick :: ticker
  pending :: "store list"
  emitted :: "input_event list list"

definition next_inc :: "nat \<Rightarrow> pc" where
  "next_inc i = (if Suc i < DIRECTION_NUM then Inc_test (Suc i) else Calc_test 0)"

definition next_calc :: "nat \<Rightarrow> pc" where
  "next_calc i = (if Suc i < DIRECTION_NUM then Calc_test (Suc i) else Test_up)"

text \<open>One access of the tick thread; \<open>ret\<close> is the result of \<^verbatim>\<open>write\<close>, used at \<open>Write_device\<close>.\<close>

definition tick_step :: "config \<Rightarrow> int \<Rightarrow> fatal + config" where
  "tick_step c ret =
     (let s = shared c; t = tick c
      in case tpc t of
           Inc_test i \<Rightarrow>
             Inr (c\<lparr>tick := t\<lparr>tpc := (if isMoving s ! i then Inc_do i else next_inc i)\<rparr>\<rparr>)
         | Inc_do i \<Rightarrow>
             Inr (c\<lparr>shared := s\<lparr>moveTimes := (moveTimes s)[i := moveTimes s ! i + 1]\<rparr>,
                    tick := t\<lparr>tpc := next_inc i\<rparr>\<rparr>)
         | Calc_test i \<Rightarrow>
             Inr (c\<lparr>tick := t\<lparr>tpc := (if isMoving s ! i then Calc_read i else next_calc i)\<rparr>\<rparr>)
         | Calc_read i \<Rightarrow>
             Inr (c\<lparr>tick := t\<lparr>tpc := next_calc i,
                              tsteps := (tsteps t)[i := moveStep (sint (moveTimes s ! i))]\<rparr>\<rparr>)
         | Test_up \<Rightarrow>
             Inr (c\<lparr>tick := t\<lparr>tpc := (if isMoving s ! UP then Test_down else Test_left)\<rparr>\<rparr>)
         | Test_down \<Rightarrow>
             Inr (c\<lparr>tick := t\<lparr>tpc := Test_left,
                              tsteps := (if isMoving s ! DOWN
                                         then (tsteps t)[UP := 0, DOWN := 0] else tsteps t)\<rparr>\<rparr>)
         | Test_left \<Rightarrow>
             Inr (c\<lparr>tick := t\<lparr>tpc := (if isMoving s ! LEFT then Test_right else Write_device)\<rparr>\<rparr>)
         | Test_right \<Rightarrow>
             Inr (c\<lparr>tick := t\<lparr>tpc := Write_device,
                              tsteps := (if isMoving s ! RIGHT
                                         then (tsteps t)[LEFT := 0, RIGHT := 0] else tsteps t)\<rparr>\<rparr>)
         | Write_device \<Rightarrow>
             (case writeDevice (tsteps t) ret of
                Inl e \<Rightarrow> Inl e
              | Inr out \<Rightarrow> Inr (c\<lparr>tick := ticker_idle, emitted := emitted c @ [out]\<rparr>)))"

text \<open>
  A schedule names, step by step, which thread moves: the tick thread performs its
  next access, the dispatch thread reads the next event (only once the stores of the
  previous one are done), or the dispatch thread performs its next store.
\<close>

datatype sched = Tick_step int | Dispatch_event input_event | Dispatch_store

definition interleaved_step :: "config \<Rightarrow> sched \<Rightarrow> fatal + config" where
  "interleaved_step c x =
     (case x of
        Tick_step ret \<Rightarrow> tick_step c ret
      | Dispatch_event ev \<Rightarrow>
          (if pending c \<noteq> [] then Inr c
           else case handleEvent_stores ev (shared c) of
                  Inl e \<Rightarrow> Inl e
                | Inr ws \<Rightarrow> Inr (c\<lparr>pending := ws\<rparr>))
      | Dispatch_store \<Rightarrow>
          (case pending c of
             [] \<Rightarrow> Inr c
           | w # ws \<Rightarrow> Inr (c\<lparr>shared := apply_store w (shared c), pending := ws\<rparr>)))"

fun interleaved_run :: "config \<Rightarrow> sched list \<Rightarrow> fatal + config" where
  "interleaved_run c [] = Inr c"
| "interleaved_run c (x # xs) =
     (case interleaved_step c x of Inl e \<Rightarrow> Inl e | Inr c' \<Rightarrow> interleaved_run c' xs)"

text \<open>The engine at start: the state of \<open>engine_start\<close>, both threads at their beginning.\<close>

definition engine_config :: "bool \<Rightarrow> config" where
  "engine_config numlock =
     \<lparr>shared = engine_start numlock, tick = ticker_idle, pending = [], emitted = []\<rparr>"


section \<open>Serial runs\<close>

text \<open>
  One input of a serial run: an event read from a keyboard and handled by
  \<open>handleEvent\<close>, or a tick of \<open>moveMouseThread\<close> whose \<^verbatim>\<open>write\<close> returned \<open>ret\<close>. A
  serial run takes the inputs one after the other, neither thread moving while the
  other is inside \<open>handleEvent\<close> or \<open>moveMouse\<close>, and stops at the first fatal exit.
  Serial runs are the runs of \<open>interleaved_run\<close> on the schedules \<open>serialise\<close> below
  (lemma \<open>serialise_sim\<close>); they are some of the executions of the program, not all.
\<close>

datatype input = Event input_event | Tick int

definition serial_step :: "state \<Rightarrow> input \<Rightarrow> fatal + state" where
  "serial_step s i =
     (case i of
        Event ev \<Rightarrow> handleEvent ev s
      | Tick ret \<Rightarrow> (case moveMouse s ret of Inl e \<Rightarrow> Inl e | Inr (s', out) \<Rightarrow> Inr s'))"

fun serial_run :: "state \<Rightarrow> input list \<Rightarrow> fatal + state" where
  "serial_run s [] = Inr s"
| "serial_run s (i # ins) =
     (case serial_step s i of Inl e \<Rightarrow> Inl e | Inr s' \<Rightarrow> serial_run s' ins)"

text \<open>
  The number of accesses the tick thread makes in one tick that starts in state \<open>s\<close>
  and is not interrupted: a test per direction in each loop, one more access per
  active direction, the tests of lines 403 and 408, and the \<^verbatim>\<open>write\<close>.
\<close>

definition tick_len :: "state \<Rightarrow> nat" where
  "tick_len s =
     2 * sum_list (map (\<lambda>i. if isMoving s ! i then 2 else 1) [0..<DIRECTION_NUM])
     + (if isMoving s ! UP then 2 else 1) + (if isMoving s ! LEFT then 2 else 1) + 1"

text \<open>
  The schedule of a serial run: an event is read and its stores (at most 9) are all
  performed, a tick makes all its accesses, before the other thread moves again.
\<close>

definition event_schedule :: "input_event \<Rightarrow> sched list" where
  "event_schedule ev = Dispatch_event ev # replicate 9 Dispatch_store"

fun serialise :: "state \<Rightarrow> input list \<Rightarrow> sched list" where
  "serialise s [] = []"
| "serialise s (Event ev # ins) =
     event_schedule ev @ (case handleEvent ev s of Inl e \<Rightarrow> [] | Inr s' \<Rightarrow> serialise s' ins)"
| "serialise s (Tick ret # ins) =
     replicate (tick_len s) (Tick_step ret)
     @ (case moveMouse s ret of Inl e \<Rightarrow> [] | Inr (s', out) \<Rightarrow> serialise s' ins)"

text \<open>A key event and an LED event with the given code and value.\<close>

definition key_event :: "16 word \<Rightarrow> 32 word \<Rightarrow> input_event" where
  "key_event c v = \<lparr>ev_type = EV_KEY, ev_code = c, ev_value = v\<rparr>"

definition led_event :: "16 word \<Rightarrow> 32 word \<Rightarrow> input_event" where
  "led_event c v = \<lparr>ev_type = EV_LED, ev_code = c, ev_value = v\<rparr>"



section \<open>Invariants and sample states\<close>

text \<open>A direction that is not moving has a zero counter.\<close>

definition idle_zero :: "state \<Rightarrow> bool" where
  "idle_zero s \<longleftrightarrow> (\<forall>i<DIRECTION_NUM. \<not> isMoving s ! i \<longrightarrow> moveTimes s ! i = 0)"

text \<open>Every direction is \<open>{active: false, holdTicks: 0}\<close>.\<close>

definition all_neutral :: "state \<Rightarrow> bool" where
  "all_neutral s \<longleftrightarrow> (\<forall>i<DIRECTION_NUM. \<not> isMoving s ! i \<and> moveTimes s ! i = 0)"

definition engine_inv :: "state \<Rightarrow> bool" where
  "engine_inv s \<longleftrightarrow> state_ok s \<and> idle_zero s \<and> (numlockOn s \<longrightarrow> all_neutral s)"

text \<open>
  Sample states and inputs. \<open>all_held\<close> has all four keys down; \<open>left_held\<close> is the
  state after pressing keypad 4 and one tick; \<open>locked_state\<close> is the neutral state with
  NumLock on.
\<close>

definition all_held :: state where
  "all_held = \<lparr>numlockOn = False, isMoving = [True, True, True, True],
                moveTimes = [250, 3, 40, 300]\<rparr>"

definition left_held :: state where
  "left_held = \<lparr>numlockOn = False, isMoving = [False, False, True, False],
                 moveTimes = [0, 0, 1, 0]\<rparr>"

definition locked_state :: state where
  "locked_state = \<lparr>numlockOn = True, isMoving = [False, False, False, False],
                    moveTimes = [0, 0, 0, 0]\<rparr>"


definition demo_inputs :: "input list" where
  "demo_inputs =
     [Event (key_event KEY_KP8 1), Tick 72, Tick 72, Event (key_event KEY_KP8 0),
      Event (key_event KEY_KP2 1), Tick 72, Tick 72]"

definition demo_state :: state where
  "demo_state = \<lparr>numlockOn = False, isMoving = [False, True, False, False],
                  moveTimes = [0, 2, 0, 0]\<rparr>"

text \<open>
  A release inside \<open>incMoveTimes\<close>. Keypad 8 is pressed; the tick thread tests
  \<^verbatim>\<open>isMoving[UP]\<close> (line 385) and finds it set; the dispatch thread handles the release
  of keypad 8, storing \<^verbatim>\<open>isMoving[UP] = false\<close> and \<^verbatim>\<open>moveTimes[UP] = 0\<close> (lines 259-262);
  the tick thread then performs \<^verbatim>\<open>moveTimes[UP]++\<close> (line 387). \<open>raced_config\<close> is the
  configuration reached, \<open>repressed_config\<close> the one after keypad 8 is pressed again.
\<close>

definition race_schedule :: "sched list" where
  "race_schedule =
     [Dispatch_event (key_event KEY_KP8 1), Dispatch_store,
      Tick_step 72,
      Dispatch_event (key_event KEY_KP8 0), Dispatch_store, Dispatch_store,
      Tick_step 72]"

definition raced_state :: state where
  "raced_state = \<lparr>numlockOn = False, isMoving = [False, False, False, False],
                   moveTimes = [1, 0, 0, 0]\<rparr>"

definition raced_config :: config where
  "raced_config =
     \<lparr>shared = raced_state,
      tick = \<lparr>tpc = Inc_test 1, tsteps = [0, 0, 0, 0]\<rparr>,
      pending = [], emitted = []\<rparr>"

definition repressed_config :: config where
  "repressed_config =
     raced_config\<lparr>shared := raced_state\<lparr>isMoving := [True, False, False, False]\<rparr>\<rparr>"

text \<open>
  Two events inside \<open>calcMoveSteps\<close>. With keypad 6 held (\<open>right_config\<close>), the tick
  thread runs \<open>incMoveTimes\<close> and reads \<^verbatim>\<open>isMoving[UP]\<close> in the loop (line 396); the
  dispatch thread handles a press of keypad 8 and a release of keypad 6; the tick
  thread finishes the loop, the tests and the \<^verbatim>\<open>write\<close>. \<open>shared_trace\<close> lists the
  shared states a schedule passes through, and \<open>snapshot_emission\<close> is what a tick
  working on a copy of one state would write.
\<close>

text \<open>The three records that \<open>writeDevice\<close> builds for the displacement \<open>(x, y)\<close>.\<close>

definition rel_emission :: "int \<Rightarrow> int \<Rightarrow> input_event list" where
  "rel_emission x y =
     [\<lparr>ev_type = EV_REL, ev_code = REL_X, ev_value = word_of_int x\<rparr>,
      \<lparr>ev_type = EV_REL, ev_code = REL_Y, ev_value = word_of_int y\<rparr>,
      \<lparr>ev_type = EV_SYN, ev_code = SYN_REPORT, ev_value = 0\<rparr>]"

definition press_right_schedule :: "sched list" where
  "press_right_schedule = [Dispatch_event (key_event KEY_KP6 1), Dispatch_store]"

definition right_config :: config where
  "right_config =
     \<lparr>shared = \<lparr>numlockOn = False, isMoving = [False, False, False, True],
                 moveTimes = [0, 0, 0, 0]\<rparr>,
      tick = ticker_idle, pending = [], emitted = []\<rparr>"

definition mix_schedule :: "sched list" where
  "mix_schedule =
     replicate 6 (Tick_step 72)
     @ [Dispatch_event (key_event KEY_KP8 1), Dispatch_store,
        Dispatch_event (key_event KEY_KP6 0), Dispatch_store, Dispatch_store]
     @ replicate 7 (Tick_step 72)"

definition mixed_config :: config where
  "mixed_config =
     \<lparr>shared = \<lparr>numlockOn = False, isMoving = [True, False, False, False],
                 moveTimes = [0, 0, 0, 0]\<rparr>,
      tick = ticker_idle, pending = [], emitted = [rel_emission 0 0]\<rparr>"

fun shared_trace :: "config \<Rightarrow> sched list \<Rightarrow> state list" where
  "shared_trace c [] = [shared c]"
| "shared_trace c (x # xs) =
     shared c # (case interleaved_step c x of Inl e \<Rightarrow> [] | Inr c' \<Rightarrow> shared_trace c' xs)"

definition snapshot_emission :: "int \<Rightarrow> state \<Rightarrow> fatal + input_event list" where
  "snapshot_emission ret s = writeDevice (calcMoveSteps s (replicate DIRECTION_NUM 0)) ret"

text \<open>Configurations with all four keys held, and with the tick thread about to write.\<close>

definition held_config :: config where
  "held_config = \<lparr>shared = all_held, tick = ticker_idle, pending = [], emitted = []\<rparr>"

definition writing_config :: config where
  "writing_config =
     \<lparr>shared = left_held, tick = \<lparr>tpc = Write_device, tsteps = [0, 0, 1, 0]\<rparr>,
      pending = [], emitted = []\<rparr>"



section \<open>Rounding to binary64: error bound and exactness\<close>

lemma round_half_even_error: "\<bar>of_int (round_half_even y) - y\<bar> \<le> 1 / 2"
proof -
  have "of_int \<lfloor>y\<rfloor> \<le> y" and "y < of_int \<lfloor>y\<rfloor> + 1"
    by linarith+
  then show ?thesis
    unfolding round_half_even_def Let_def by (auto simp: abs_le_iff)
qed

lemma round_half_even_of_int: "round_half_even (of_int n) = n"
  by (simp add: round_half_even_def)

lemma bitlen_powi_bounds:
  fixes p :: int
  assumes "0 < p"
  shows "(2::rat) powi (bitlen p - 1) \<le> of_int p" "of_int p < (2::rat) powi (bitlen p)"
proof -
  from bitlen_bounds [OF assms]
  have lo: "2 ^ nat (bitlen p - 1) \<le> p" and hi: "p < 2 ^ nat (bitlen p)" by auto
  have b1: "1 \<le> bitlen p" using assms by (auto simp: bitlen_alt_def)
  have "(2::rat) powi (bitlen p - 1) = of_int (2 ^ nat (bitlen p - 1))"
    using b1 by (simp add: power_int_nonneg_exp)
  also have "\<dots> \<le> of_int p" using lo by (simp only: of_int_le_iff)
  finally show "(2::rat) powi (bitlen p - 1) \<le> of_int p" .
  have "(of_int p :: rat) < of_int (2 ^ nat (bitlen p))"
    using hi by (simp only: of_int_less_iff)
  also have "\<dots> = 2 powi (bitlen p)" using b1 by (simp add: power_int_nonneg_exp)
  finally show "of_int p < (2::rat) powi (bitlen p)" .
qed

lemma binade_bounds:
  assumes "0 < x"
  shows "2 powi (binade x) \<le> x" "x < 2 powi (binade x + 1)"
proof -
  obtain p q where pq: "quotient_of x = (p, q)" by (cases "quotient_of x")
  have q: "0 < q" using pq by (rule quotient_of_denom_pos)
  have x: "x = of_int p / of_int q" using pq by (rule quotient_of_div)
  have p: "0 < p" using assms q x by (simp add: zero_less_divide_iff)
  define d where "d = bitlen p - bitlen q"
  have qr: "(0::rat) < of_int q" using q by simp
  note bp = bitlen_powi_bounds [OF p] and bq = bitlen_powi_bounds [OF q]
  have two: "(2::rat) powi (bitlen q) = 2 * 2 powi (bitlen q - 1)"
    by (simp add: power_int_diff)
  have up: "of_int p < of_int q * (2::rat) powi (d + 1)"
  proof -
    have "of_int p < (2::rat) powi (bitlen p)" by (rule bp)
    also have "\<dots> = 2 powi (bitlen q - 1) * 2 powi (d + 1)"
      by (simp add: d_def power_int_add [symmetric])
    also have "\<dots> \<le> of_int q * 2 powi (d + 1)"
      using bq(1) by (intro mult_right_mono) simp_all
    finally show ?thesis .
  qed
  have lo: "of_int q * (2::rat) powi (d - 1) < of_int p"
  proof -
    have "of_int q * (2::rat) powi (d - 1) < 2 powi (bitlen q) * 2 powi (d - 1)"
      using bq(2) by (intro mult_strict_right_mono) simp_all
    also have "\<dots> = 2 powi (bitlen p - 1)"
      by (simp add: d_def power_int_add [symmetric])
    also have "\<dots> \<le> of_int p" by (rule bp)
    finally show ?thesis .
  qed
  have b: "binade x = (if of_int q * (2::rat) powi d \<le> of_int p then d else d - 1)"
    by (simp add: binade_def pq d_def Let_def)
  show "2 powi (binade x) \<le> x"
  proof (cases "of_int q * (2::rat) powi d \<le> of_int p")
    case True
    then have "2 powi d \<le> x"
      unfolding x using qr by (simp add: pos_le_divide_eq mult.commute)
    moreover have "binade x = d" using b True by simp
    ultimately show ?thesis by simp
  next
    case False
    have "2 powi (d - 1) \<le> x"
      unfolding x using qr lo by (simp add: pos_le_divide_eq mult.commute)
    moreover have "binade x = d - 1" using b False by simp
    ultimately show ?thesis by simp
  qed
  show "x < 2 powi (binade x + 1)"
  proof (cases "of_int q * (2::rat) powi d \<le> of_int p")
    case True
    have "x < 2 powi (d + 1)"
      unfolding x using qr up by (simp add: pos_divide_less_eq mult.commute)
    moreover have "binade x = d" using b True by simp
    ultimately show ?thesis by simp
  next
    case False
    then have "x < 2 powi d"
      unfolding x using qr by (simp add: pos_divide_less_eq mult.commute)
    moreover have "binade x = d - 1" using b False by simp
    ultimately show ?thesis by simp
  qed
qed


text \<open>
  Spot checks of the model against known binary64 values: \<^verbatim>\<open>1.0 / 3.0\<close> is
  \<^verbatim>\<open>0x3FD5555555555555\<close> and \<^verbatim>\<open>0.1\<close> is \<^verbatim>\<open>0x3FB999999999999A\<close>; ties go to the
  even neighbour.
\<close>

lemma round_double_third: "round_double (1 / 3) = 6004799503160661 / 2 ^ 54"
  by code_simp

lemma round_double_tenth: "round_double (1 / 10) = 3602879701896397 / 2 ^ 55"
  by code_simp

lemma round_half_even_ties:
  "round_half_even (1 / 2) = 0" "round_half_even (3 / 2) = 2" "round_half_even (5 / 2) = 2"
  by code_simp+

lemma pow2_less_imp: "(2::rat) powi a < 2 powi b \<Longrightarrow> a < b"
  using power_int_increasing [of b a "2::rat"] by (cases "a < b") auto

lemma round_double_error:
  assumes "2 powi (- 1022) \<le> x"
  shows "\<bar>round_double x - x\<bar> \<le> x / 2 ^ 53"
proof -
  have pos: "0 < x"
    using assms zero_less_power_int [of "2::rat" "- 1022"] by linarith
  define e where "e = binade x"
  have lo: "2 powi e \<le> x" and hi: "x < 2 powi (e + 1)"
    using binade_bounds [OF pos] by (simp_all add: e_def)
  have "(2::rat) powi (- 1022) < 2 powi (e + 1)" using assms hi by linarith
  then have "- 1022 < e + 1" by (rule pow2_less_imp)
  then have k: "min (52 - e) 1074 = 52 - e" by simp
  define y where "y = x * 2 powi (52 - e)"
  define m where "m = round_half_even y"
  have p2: "(0::rat) < 2 powi (52 - e)" by simp
  have rd: "round_double x = of_int m / 2 powi (52 - e)"
    using pos by (simp add: round_double_def Let_def e_def [symmetric] k y_def m_def)
  have xy: "x = y / 2 powi (52 - e)" by (simp add: y_def)
  have "2 powi e * (2::rat) powi (52 - e) \<le> y"
    unfolding y_def using lo p2 by (intro mult_right_mono) simp_all
  then have y52: "2 ^ 52 \<le> y" by (simp add: power_int_add [symmetric])
  have err: "\<bar>of_int m - y\<bar> \<le> 1 / 2"
    unfolding m_def by (rule round_half_even_error)
  have "\<bar>round_double x - x\<bar> = \<bar>of_int m - y\<bar> / 2 powi (52 - e)"
    unfolding rd using p2 by (subst xy) (simp add: diff_divide_distrib [symmetric])
  also have "\<dots> \<le> (y / 2 ^ 53) / 2 powi (52 - e)"
    using err y52 p2 by (intro divide_right_mono) simp_all
  also have "\<dots> = x / 2 ^ 53" by (simp add: y_def)
  finally show ?thesis .
qed

lemma round_double_of_int:
  assumes "0 < n" and "n < 2 ^ 53"
  shows "round_double (of_int n) = of_int n"
proof -
  have pos: "(0::rat) < of_int n" using assms by simp
  define e where "e = binade (of_int n)"
  have "2 powi e \<le> (of_int n :: rat)"
    using binade_bounds(1) [OF pos] by (simp add: e_def)
  also have "(of_int n :: rat) < 2 powi 53"
    using assms(2) of_int_less_iff [of n "2 ^ 53", where ?'a = rat] by simp
  finally have "e < 53" by (rule pow2_less_imp)
  define k where "k = min (52 - e) 1074"
  have k0: "0 \<le> k" using \<open>e < 53\<close> by (simp add: k_def)
  have pk: "(2::rat) powi k = of_int (2 ^ nat k)"
    using k0 by (simp add: power_int_nonneg_exp)
  have "round_half_even (of_int n * 2 powi k) = n * 2 ^ nat k"
    unfolding pk of_int_mult [symmetric] by (rule round_half_even_of_int)
  then show ?thesis
    using pos by (simp add: round_double_def Let_def e_def [symmetric] k_def [symmetric] pk)
qed



section \<open>The closed form of the acceleration curve\<close>

lemmas moveStep_consts = MIN_STEP_def MAX_STEP_def MIN_POINT_def MAX_POINT_def

lemma small_powi: "(2::rat) powi (- 1022) \<le> 1 / 2 ^ 10"
proof -
  have "(2::rat) powi (- 1022) \<le> 2 powi (- 10)"
    by (rule power_int_increasing) simp_all
  then show ?thesis by (simp add: power_int_minus_divide)
qed

lemma ramp_generic:
  fixes n :: int
  assumes n: "1 \<le> n" "n \<le> 150" and r: "(n * 9) mod 150 \<noteq> 0"
  shows "int_of_double
           (dadd (double_of_int 1)
              (dmul (ddiv (dmul (double_of_int n) 1) (double_of_int 150)) (double_of_int 9)))
         = 1 + (n * 9) div 150"
proof -
  define x :: rat where "x = of_int n / 150"
  define q :: rat where "q = of_int n * 9 / 150"
  define f where "f = (n * 9) div 150"
  define u :: rat where "u = 1 / 2 ^ 53"
  have u: "0 \<le> u" "30 * u \<le> 1 / 2048" by (simp_all add: u_def)
  have a: "round_double (of_int n) = of_int n"
    using n by (intro round_double_of_int) simp_all
  define b where "b = round_double x"
  define c where "c = round_double (b * 9)"
  define d where "d = round_double (1 + c)"
  have xr: "1 / 150 \<le> x" "x \<le> 1" using n by (simp_all add: x_def)
  have "2 powi (- 1022) \<le> x" using small_powi xr by simp
  from round_double_error [OF this] have "\<bar>b - x\<bar> \<le> x * u"
    by (simp add: b_def u_def)
  moreover have "x * u \<le> 1 * u" using xr u by (intro mult_right_mono) simp_all
  ultimately have eb: "\<bar>b - x\<bar> \<le> u" by simp
  have br: "1 / 1024 \<le> b * 9" "b * 9 \<le> 10" using eb xr u by linarith+
  have "2 powi (- 1022) \<le> b * 9" using small_powi br by simp
  from round_double_error [OF this] have "\<bar>c - b * 9\<bar> \<le> b * 9 * u"
    by (simp add: c_def u_def)
  moreover have "b * 9 * u \<le> 10 * u" using br u by (intro mult_right_mono) simp_all
  ultimately have "\<bar>c - b * 9\<bar> \<le> 10 * u" by simp
  moreover have q9: "q = x * 9" by (simp add: q_def x_def)
  ultimately have ec: "\<bar>c - q\<bar> \<le> 19 * u" using eb by linarith
  have qr: "0 \<le> q" "q \<le> 9" using xr q9 by simp_all
  have cr: "1 / 1024 \<le> 1 + c" "1 + c \<le> 11" using ec qr u by linarith+
  have "2 powi (- 1022) \<le> 1 + c" using small_powi cr by simp
  from round_double_error [OF this] have "\<bar>d - (1 + c)\<bar> \<le> (1 + c) * u"
    by (simp add: d_def u_def)
  moreover have "(1 + c) * u \<le> 11 * u" using cr u by (intro mult_right_mono) simp_all
  ultimately have "\<bar>d - (1 + c)\<bar> \<le> 11 * u" by simp
  then have ed: "\<bar>d - (1 + q)\<bar> \<le> 30 * u" using ec by linarith
  define m where "m = (n * 9) mod 150"
  have "0 \<le> m" "m < 150" by (simp_all add: m_def)
  then have m: "1 \<le> m" "m \<le> 149" using r by (simp_all add: m_def)
  have "n * 9 = 150 * f + m"
    unfolding f_def m_def by (rule mult_div_mod_eq [symmetric])
  then have "(of_int (n * 9) :: rat) = of_int (150 * f + m)" by (simp only:)
  then have qf: "q = of_int f + of_int m / 150" by (simp add: q_def)
  have mr: "(1::rat) \<le> of_int m" "(of_int m :: rat) \<le> 149" using m by simp_all
  have frac: "1 / 150 \<le> q - of_int f" "q - of_int f \<le> 149 / 150"
    using mr by (simp_all add: qf)
  have lo: "of_int (1 + f) \<le> d" using ed frac u by (simp; linarith)
  have hi: "d < of_int (1 + f) + 1" using ed frac u by (simp; linarith)
  have "0 \<le> d" using ed qr u by linarith
  then have "int_of_double d = \<lfloor>d\<rfloor>" by (simp add: int_of_double_def)
  also have "\<lfloor>d\<rfloor> = 1 + f" using lo hi by (rule floor_unique)
  finally show ?thesis
    by (simp add: d_def c_def b_def x_def f_def a dadd_def dmul_def ddiv_def double_of_int_def)
qed


lemma ramp_100: "moveStep 100 = 4" by code_simp
lemma ramp_150: "moveStep 150 = 7" by code_simp
lemma ramp_200: "moveStep 200 = 10" by code_simp

lemma ramp_exact_points:
  fixes n :: int
  assumes "1 \<le> n" "n \<le> 150" "(n * 9) mod 150 = 0"
  shows "n = 50 \<or> n = 100 \<or> n = 150"
proof -
  have "150 dvd n * 9" using assms(3) by (simp add: dvd_eq_mod_eq_0)
  then obtain k where "n * 9 = 150 * k" by (auto simp: dvd_def)
  then have "n * 3 = 50 * k" by simp
  then have "n = 50 * (17 * k - n)" by simp
  then obtain j where j: "n = 50 * j" ..
  with assms have "1 \<le> j" "j \<le> 3" by simp_all
  then have "j = 1 \<or> j = 2 \<or> j = 3" by arith
  with j show ?thesis by auto
qed

lemma moveStep_low: "t \<le> 50 \<Longrightarrow> moveStep t = 1"
  by (simp add: moveStep_def moveStep_consts)

lemma moveStep_high: "200 < t \<Longrightarrow> moveStep t = 10"
  by (simp add: moveStep_def moveStep_consts)

lemma moveStep_ramp:
  assumes "50 < t" and "t \<le> 200"
  shows "moveStep t = 1 + ((t - 50) * 9) div 150"
proof (cases "((t - 50) * 9) mod 150 = 0")
  case True
  with assms ramp_exact_points [of "t - 50"] consider "t = 100" | "t = 150" | "t = 200"
    by fastforce
  then show ?thesis
  proof cases
    case 1
    show ?thesis unfolding 1 ramp_100 by simp
  next
    case 2
    show ?thesis unfolding 2 ramp_150 by simp
  next
    case 3
    show ?thesis unfolding 3 ramp_200 by simp
  qed
next
  case False
  have n: "1 \<le> t - 50" "t - 50 \<le> 150" using assms by simp_all
  have "moveStep t =
    int_of_double
      (dadd (double_of_int 1)
         (dmul (ddiv (dmul (double_of_int (t - 50)) 1) (double_of_int 150)) (double_of_int 9)))"
    using assms by (simp add: moveStep_def moveStep_consts)
  also have "\<dots> = 1 + ((t - 50) * 9) div 150"
    using n False by (rule ramp_generic)
  finally show ?thesis .
qed

lemma moveStep_closed_form:
  "moveStep t =
     (if t \<le> 50 then 1 else if t \<le> 200 then 1 + ((t - 50) * 9) div 150 else 10)"
  using moveStep_low [of t] moveStep_high [of t] moveStep_ramp [of t] by simp



section \<open>Claims about the acceleration curve\<close>

lemma ramp_floor:
  fixes t :: int
  shows "\<lfloor>1 + (of_int (t - 50) :: rat) / (200 - 50) * (10 - 1)\<rfloor> = 1 + ((t - 50) * 9) div 150"
proof -
  have "1 + (of_int (t - 50) :: rat) / (200 - 50) * (10 - 1)
      = of_int 1 + of_int ((t - 50) * 9) / of_int 150"
    by simp
  also have "\<lfloor>\<dots>\<rfloor> = 1 + \<lfloor>(of_int ((t - 50) * 9) :: rat) / of_int 150\<rfloor>"
    by (rule int_add_floor [symmetric])
  also have "\<lfloor>(of_int ((t - 50) * 9) :: rat) / of_int 150\<rfloor> = ((t - 50) * 9) div 150"
    by (rule floor_divide_of_int_eq)
  finally show ?thesis .
qed

text \<open>
  Claim C1. The acceleration function is the three-regime piecewise function: it
  returns \<open>MIN_STEP = 1\<close> for every hold duration \<open>t \<le> 50\<close>; for \<open>50 < t \<le> 200\<close> it
  returns \<open>1 + (t - 50) / (200 - 50) * (10 - 1)\<close> truncated to an integer, so that the
  binary64 computation of the code agrees with the exact interpolation; and it returns
  \<open>MAX_STEP = 10\<close> for \<open>t > 200\<close>. In particular \<open>step 125 = 5\<close> and \<open>step 200 = 10\<close>.
\<close>

theorem moveStep_three_regimes:
  "(t \<le> 50 \<longrightarrow> moveStep t = 1) \<and>
   (50 < t \<and> t \<le> 200 \<longrightarrow>
      moveStep t = \<lfloor>1 + (of_int (t - 50) :: rat) / (200 - 50) * (10 - 1)\<rfloor>) \<and>
   (200 < t \<longrightarrow> moveStep t = 10) \<and>
   moveStep t = step_spec t \<and>
   moveStep 125 = 5 \<and> moveStep 200 = 10"
proof -
  have low: "t \<le> 50 \<longrightarrow> moveStep t = 1"
    by (simp add: moveStep_low)
  have mid: "50 < t \<and> t \<le> 200 \<longrightarrow>
      moveStep t = \<lfloor>1 + (of_int (t - 50) :: rat) / (200 - 50) * (10 - 1)\<rfloor>"
    unfolding ramp_floor by (simp add: moveStep_ramp)
  have high: "200 < t \<longrightarrow> moveStep t = 10"
    by (simp add: moveStep_high)
  have spec: "moveStep t = step_spec t"
    unfolding step_spec_def ramp_floor by (rule moveStep_closed_form)
  have "moveStep 125 = 5" by (simp add: moveStep_closed_form)
  moreover have "moveStep 200 = 10" by (rule ramp_200)
  ultimately show ?thesis
    using low mid high spec by blast
qed

theorem moveStep_three_regimes_witness:
  "moveStep 50 = 1 \<and> moveStep 126 = 5 \<and> moveStep 201 = 10 \<and> moveStep (- 7) = 1"
proof -
  have "\<lfloor>1 + (of_int (126 - 50) :: rat) / (200 - 50) * (10 - 1)\<rfloor> = (5::int)"
    unfolding ramp_floor by simp
  then show ?thesis
    using moveStep_three_regimes [of 50] moveStep_three_regimes [of 126]
      moveStep_three_regimes [of 201] moveStep_three_regimes [of "- 7"]
    by simp
qed

text \<open>
  Claim C6. The acceleration function is monotonic non-decreasing: whenever
  \<open>t1 \<le> t2\<close>, and so in particular for all \<open>t2 \<ge> t1 \<ge> 0\<close>, \<open>step t1 \<le> step t2\<close>.
\<close>

theorem moveStep_mono:
  assumes "t1 \<le> t2"
  shows "moveStep t1 \<le> moveStep t2"
proof -
  have ramp: "((a - 50) * 9) div 150 \<le> ((b - 50) * 9) div 150" if "a \<le> b" for a b :: int
    using that by (intro zdiv_mono1) simp_all
  have lo: "0 \<le> ((a - 50) * 9) div 150" if "50 < a" for a :: int
    using that by (simp add: pos_imp_zdiv_nonneg_iff)
  have hi: "((a - 50) * 9) div 150 \<le> 9" if "a \<le> 200" for a :: int
  proof -
    have "((a - 50) * 9) div 150 \<le> ((200 - 50) * 9) div 150"
      using that by (intro zdiv_mono1) simp_all
    then show ?thesis by simp
  qed
  show ?thesis
    using assms ramp [of t1 t2] lo [of t2] hi [of t1]
    by (simp add: moveStep_closed_form)
qed

theorem moveStep_mono_witness:
  "(0::int) \<le> 60 \<and> (60::int) \<le> 180 \<and> moveStep 60 \<le> moveStep 180"
  using moveStep_mono [of 60 180] by simp

text \<open>
  Claim C7. The acceleration function is bounded: for every hold duration \<open>t\<close>, and
  so for every \<open>t \<ge> 0\<close>, its result lies in \<open>[MIN_STEP, MAX_STEP]\<close>, that is
  \<open>1 \<le> step t \<le> 10\<close>.
\<close>

theorem moveStep_bounds:
  "MIN_STEP \<le> moveStep t \<and> moveStep t \<le> MAX_STEP \<and> 1 \<le> moveStep t \<and> moveStep t \<le> 10"
proof -
  have lo: "0 \<le> ((t - 50) * 9) div 150" if "50 < t"
    using that by (simp add: pos_imp_zdiv_nonneg_iff)
  have hi: "((t - 50) * 9) div 150 \<le> 9" if "t \<le> 200"
  proof -
    have "((t - 50) * 9) div 150 \<le> ((200 - 50) * 9) div 150"
      using that by (intro zdiv_mono1) simp_all
    then show ?thesis by simp
  qed
  show ?thesis
    using lo hi by (simp add: moveStep_closed_form moveStep_consts)
qed


section \<open>The shared state: basic facts and the invariant of serial runs\<close>

lemmas dir_defs = UP_def DOWN_def LEFT_def RIGHT_def DIRECTION_NUM_def

lemma upt_4: "[0..<4] = [0, 1, 2, 3]"
  by (simp add: upt_rec)

lemma upt_DIRECTION_NUM: "[0..<DIRECTION_NUM] = [0, 1, 2, 3]"
  by (simp add: DIRECTION_NUM_def upt_4)

lemma below_DIRECTION_NUM:
  "i < DIRECTION_NUM \<longleftrightarrow> i = 0 \<or> i = 1 \<or> i = 2 \<or> i = 3"
  by (auto simp: DIRECTION_NUM_def)

lemma below_4: "i < 4 \<longleftrightarrow> i = 0 \<or> i = 1 \<or> i = 2 \<or> i = (3::nat)"
  by auto

lemma setIsMoving_numlockOn [simp]: "numlockOn (setIsMoving i v s) = numlockOn s"
  by (simp add: setIsMoving_def Let_def)

lemma setIsMoving_isMoving [simp]:
  "isMoving (setIsMoving i v s) = (isMoving s)[i := (v \<noteq> 0)]"
  by (simp add: setIsMoving_def Let_def)

lemma setIsMoving_moveTimes [simp]:
  "moveTimes (setIsMoving i v s) = (if v = 0 then (moveTimes s)[i := 0] else moveTimes s)"
  by (simp add: setIsMoving_def Let_def)

lemma setIsMoving_state_ok [simp]: "state_ok (setIsMoving i v s) = state_ok s"
  by (simp add: state_ok_def)

lemma incMoveTimes_numlockOn [simp]: "numlockOn (incMoveTimes s) = numlockOn s"
  by (simp add: incMoveTimes_def upt_DIRECTION_NUM)

lemma incMoveTimes_isMoving [simp]: "isMoving (incMoveTimes s) = isMoving s"
  by (simp add: incMoveTimes_def upt_DIRECTION_NUM)

lemma incMoveTimes_length [simp]: "length (moveTimes (incMoveTimes s)) = length (moveTimes s)"
  by (simp add: incMoveTimes_def upt_DIRECTION_NUM)

lemma incMoveTimes_nth:
  assumes "state_ok s" and "i < DIRECTION_NUM"
  shows "moveTimes (incMoveTimes s) ! i =
           (if isMoving s ! i then moveTimes s ! i + 1 else moveTimes s ! i)"
  using assms
  by (auto simp: incMoveTimes_def upt_4 state_ok_def below_4 DIRECTION_NUM_def)


lemma length_4: "length xs = 4 \<longleftrightarrow> (\<exists>a b c d. xs = [a, b, c, d])"
  by (auto simp: numeral_eq_Suc length_Suc_conv)

lemma replicate_4: "replicate 4 x = [x, x, x, x]"
  by (simp add: numeral_eq_Suc)

lemma resetMoveTimes_eq:
  "state_ok s \<Longrightarrow> resetMoveTimes s = s\<lparr>moveTimes := replicate DIRECTION_NUM 0\<rparr>"
  by (auto simp: resetMoveTimes_def upt_4 state_ok_def DIRECTION_NUM_def length_4 replicate_4)

lemma engine_start_eq:
  "engine_start q =
     \<lparr>numlockOn = q, isMoving = replicate DIRECTION_NUM False,
      moveTimes = replicate DIRECTION_NUM 0\<rparr>"
  by (simp add: engine_start_def resetMoveTimes_eq state_ok_def)

lemma all_off_numlockOn [simp]:
  "numlockOn (fold (\<lambda>i. setIsMoving i 0) [0..<DIRECTION_NUM] s) = numlockOn s"
  by (simp add: upt_DIRECTION_NUM)

lemma all_off_state_ok [simp]:
  "state_ok (fold (\<lambda>i. setIsMoving i 0) [0..<DIRECTION_NUM] s) = state_ok s"
  by (simp add: upt_DIRECTION_NUM)

lemma all_off_nth:
  assumes "state_ok s" and "i < DIRECTION_NUM"
  shows "\<not> isMoving (fold (\<lambda>i. setIsMoving i 0) [0..<DIRECTION_NUM] s) ! i"
    and "moveTimes (fold (\<lambda>i. setIsMoving i 0) [0..<DIRECTION_NUM] s) ! i = 0"
  using assms
  by (auto simp: upt_4 state_ok_def below_4 DIRECTION_NUM_def)


lemma all_below_DIRECTION_NUM:
  "(\<forall>i<DIRECTION_NUM. P i) \<longleftrightarrow> P 0 \<and> P 1 \<and> P 2 \<and> P 3"
  unfolding below_DIRECTION_NUM by auto

lemma state_ok_lists:
  assumes "state_ok s"
  obtains a b c d w x y z
  where "isMoving s = [a, b, c, d]" and "moveTimes s = [w, x, y, z]"
  using assms unfolding state_ok_def DIRECTION_NUM_def length_4 by blast

lemma all_neutral_idle_zero: "all_neutral s \<Longrightarrow> idle_zero s"
  by (simp add: all_neutral_def idle_zero_def)

lemma engine_start_inv: "engine_inv (engine_start q)"
  by (simp add: engine_inv_def engine_start_eq state_ok_def idle_zero_def all_neutral_def)

lemma setIsMoving_idle_zero:
  assumes "state_ok s" and "idle_zero s" and "i < DIRECTION_NUM"
  shows "idle_zero (setIsMoving i v s)"
proof -
  from assms(1) obtain a b c d w x y z
    where l: "isMoving s = [a, b, c, d]" "moveTimes s = [w, x, y, z]"
    by (rule state_ok_lists)
  from assms(3) consider "i = 0" | "i = 1" | "i = 2" | "i = 3"
    unfolding below_DIRECTION_NUM by blast
  then show ?thesis
    using assms(2) unfolding idle_zero_def all_below_DIRECTION_NUM
    by cases (simp_all add: l)
qed

lemma all_off_neutral:
  assumes "state_ok s"
  shows "all_neutral (fold (\<lambda>i. setIsMoving i 0) [0..<DIRECTION_NUM] s)"
  unfolding all_neutral_def using all_off_nth [OF assms] by blast

lemma incMoveTimes_state_ok [simp]: "state_ok (incMoveTimes s) = state_ok s"
  by (simp add: state_ok_def)

lemma incMoveTimes_idle_zero:
  assumes "state_ok s" and "idle_zero s"
  shows "idle_zero (incMoveTimes s)"
  using assms unfolding idle_zero_def by (simp add: incMoveTimes_nth)

lemma incMoveTimes_all_neutral:
  assumes "state_ok s" and "all_neutral s"
  shows "all_neutral (incMoveTimes s)"
  using assms unfolding all_neutral_def by (simp add: incMoveTimes_nth)

lemma state_ok_numlockOn_update [simp]: "state_ok (s\<lparr>numlockOn := b\<rparr>) = state_ok s"
  by (simp add: state_ok_def)

lemma idle_zero_numlockOn_update [simp]: "idle_zero (s\<lparr>numlockOn := b\<rparr>) = idle_zero s"
  by (simp add: idle_zero_def)

lemma handleLEDEvent_on:
  assumes "ev_code ev = LED_NUML" and "ev_value ev = 1"
  shows "handleLEDEvent ev s =
           fold (\<lambda>i. setIsMoving i 0) [0..<DIRECTION_NUM] (s\<lparr>numlockOn := True\<rparr>)"
  using assms by (simp add: handleLEDEvent_def)

lemma handleLEDEvent_on_neutral:
  assumes "ev_code ev = LED_NUML" and "ev_value ev = 1" and "state_ok s"
  shows "state_ok (handleLEDEvent ev s)" and "numlockOn (handleLEDEvent ev s)"
    and "all_neutral (handleLEDEvent ev s)"
  using assms(3) unfolding handleLEDEvent_on [OF assms(1,2)]
  by (simp_all add: all_off_neutral)

lemma handleLEDEvent_inv:
  assumes "engine_inv s"
  shows "engine_inv (handleLEDEvent ev s)"
proof -
  consider "ev_code ev = LED_NUML" "ev_value ev = 0"
    | "ev_code ev = LED_NUML" "ev_value ev = 1"
    | "ev_code ev \<noteq> LED_NUML \<or> (ev_value ev \<noteq> 0 \<and> ev_value ev \<noteq> 1)"
    by blast
  then show ?thesis
  proof cases
    case 1
    then have "handleLEDEvent ev s = s\<lparr>numlockOn := False\<rparr>"
      by (simp add: handleLEDEvent_def)
    then show ?thesis using assms by (simp add: engine_inv_def)
  next
    case 2
    from assms have "state_ok s" by (simp add: engine_inv_def)
    from handleLEDEvent_on_neutral [OF 2 this] show ?thesis
      by (simp add: engine_inv_def all_neutral_idle_zero)
  next
    case 3
    then have "handleLEDEvent ev s = s"
      by (auto simp: handleLEDEvent_def)
    then show ?thesis using assms by simp
  qed
qed

lemma dir_below [simp]:
  "UP < DIRECTION_NUM" "DOWN < DIRECTION_NUM" "LEFT < DIRECTION_NUM" "RIGHT < DIRECTION_NUM"
  by (simp_all add: dir_defs)

lemma keyAction_in_range:
  assumes "i < DIRECTION_NUM"
  shows "keyAction (int i) v s =
           Inr (if v = 1 then setIsMoving i 1 s else if v = 0 then setIsMoving i 0 s else s)"
  using assms by (simp add: keyAction_def)

lemma handleKeyEvent_eq:
  "handleKeyEvent ev s =
     (if numlockOn s then Inr s
      else if ev_code ev = KEY_KP8 then keyAction (int UP) (ev_value ev) s
      else if ev_code ev = KEY_KP2 then keyAction (int DOWN) (ev_value ev) s
      else if ev_code ev = KEY_KP4 then keyAction (int LEFT) (ev_value ev) s
      else if ev_code ev = KEY_KP6 then keyAction (int RIGHT) (ev_value ev) s
      else Inr s)"
  by (simp add: handleKeyEvent_def Let_def)

lemma handleKeyEvent_result:
  assumes "handleKeyEvent ev s = Inr s'"
  shows "s' = s \<or> (\<not> numlockOn s \<and> (\<exists>i v. i < DIRECTION_NUM \<and> s' = setIsMoving i v s))"
proof (cases "numlockOn s")
  case True
  then show ?thesis using assms by (simp add: handleKeyEvent_eq)
next
  case False
  have key: "s' = s \<or> (\<exists>i v. i < DIRECTION_NUM \<and> s' = setIsMoving i v s)"
    if "keyAction (int i) (ev_value ev) s = Inr s'" and "i < DIRECTION_NUM" for i
  proof -
    from that have "s' = (if ev_value ev = 1 then setIsMoving i 1 s
                          else if ev_value ev = 0 then setIsMoving i 0 s else s)"
      by (simp add: keyAction_in_range)
    then show ?thesis using that(2) by (metis (full_types))
  qed
  have "s' = s
      \<or> keyAction (int UP) (ev_value ev) s = Inr s'
      \<or> keyAction (int DOWN) (ev_value ev) s = Inr s'
      \<or> keyAction (int LEFT) (ev_value ev) s = Inr s'
      \<or> keyAction (int RIGHT) (ev_value ev) s = Inr s'"
    using assms False unfolding handleKeyEvent_eq by (simp split: if_splits)
  then show ?thesis
    using False key [of UP] key [of DOWN] key [of LEFT] key [of RIGHT] dir_below
    by blast
qed

lemma handleKeyEvent_inv:
  assumes "engine_inv s" and "handleKeyEvent ev s = Inr s'"
  shows "engine_inv s'"
proof -
  from handleKeyEvent_result [OF assms(2)]
  consider "s' = s" | i v where "\<not> numlockOn s" "i < DIRECTION_NUM" "s' = setIsMoving i v s"
    by blast
  then show ?thesis
  proof cases
    case 1
    then show ?thesis using assms(1) by simp
  next
    case 2
    then show ?thesis
      using assms(1) by (simp add: engine_inv_def setIsMoving_idle_zero)
  qed
qed

lemma handleEvent_inv:
  assumes "engine_inv s" and "handleEvent ev s = Inr s'"
  shows "engine_inv s'"
proof -
  have "handleKeyEvent ev s = Inr s' \<or> handleLEDEvent ev s = s' \<or> s = s'"
    using assms(2) by (simp add: handleEvent_def split: if_splits)
  then consider "handleKeyEvent ev s = Inr s'" | "handleLEDEvent ev s = s'" | "s = s'"
    by blast
  then show ?thesis
  proof cases
    case 1
    with assms(1) show ?thesis by (rule handleKeyEvent_inv)
  next
    case 2
    from handleLEDEvent_inv [OF assms(1), of ev] show ?thesis by (simp only: 2)
  next
    case 3
    with assms(1) show ?thesis by simp
  qed
qed

lemma moveMouse_state:
  assumes "moveMouse s ret = Inr (s', out)"
  shows "s' = incMoveTimes s"
  using assms by (auto simp: moveMouse_def Let_def split: sum.splits)

lemma moveMouse_inv:
  assumes "engine_inv s" and "moveMouse s ret = Inr (s', out)"
  shows "engine_inv s'"
  using assms(1) unfolding moveMouse_state [OF assms(2)] engine_inv_def
  by (simp add: incMoveTimes_idle_zero incMoveTimes_all_neutral)

lemma serial_step_inv:
  assumes "engine_inv s" and "serial_step s i = Inr s'"
  shows "engine_inv s'"
proof (cases i)
  case (Event ev)
  with assms(2) have "handleEvent ev s = Inr s'" by (simp add: serial_step_def)
  with assms(1) show ?thesis by (rule handleEvent_inv)
next
  case (Tick ret)
  with assms(2) obtain out where "moveMouse s ret = Inr (s', out)"
    by (auto simp: serial_step_def split: sum.splits)
  with assms(1) show ?thesis by (rule moveMouse_inv)
qed

lemma serial_run_inv:
  assumes "engine_inv s" and "serial_run s ins = Inr s'"
  shows "engine_inv s'"
  using assms
proof (induction ins arbitrary: s)
  case Nil
  then show ?case by simp
next
  case (Cons i ins)
  from Cons.prems(2) obtain s1
    where s1: "serial_step s i = Inr s1" and r: "serial_run s1 ins = Inr s'"
    by (auto split: sum.splits)
  from Cons.prems(1) s1 have "engine_inv s1" by (rule serial_step_inv)
  then show ?case using r by (rule Cons.IH)
qed


section \<open>The two threads: uninterrupted ticks and events\<close>

text \<open>
  A tick that no store of the dispatch thread interrupts: from the start of
  \<open>moveMouse\<close>, \<open>tick_len\<close> accesses of the tick thread give what \<open>moveMouse\<close> gives.
\<close>

lemma tick_sim:
  assumes "tick c = ticker_idle"
  shows "interleaved_run c (replicate (tick_len (shared c)) (Tick_step ret)) =
     (case writeDevice (calcMoveSteps (incMoveTimes (shared c)) (replicate DIRECTION_NUM 0)) ret of
        Inl e \<Rightarrow> Inl e
      | Inr out \<Rightarrow> Inr (c\<lparr>shared := incMoveTimes (shared c), emitted := emitted c @ [out]\<rparr>))"
proof -
  have t: "tick c = \<lparr>tpc = Inc_test 0, tsteps = [0, 0, 0, 0]\<rparr>"
    using assms by (simp add: ticker_idle_def DIRECTION_NUM_def replicate_4)
  show ?thesis
    apply (cases "isMoving (shared c) ! 0"; cases "isMoving (shared c) ! 1";
        cases "isMoving (shared c) ! 2"; cases "isMoving (shared c) ! 3")
    apply (simp_all add: tick_len_def upt_4 DIRECTION_NUM_def UP_def DOWN_def LEFT_def RIGHT_def
        eval_nat_numeral interleaved_step_def tick_step_def Let_def t next_inc_def next_calc_def
        incMoveTimes_def calcMoveSteps_def replicate_4 ticker_idle_def
        split: sum.splits)
    done
qed


lemma interleaved_run_append:
  "interleaved_run c (xs @ ys) =
     (case interleaved_run c xs of Inl e \<Rightarrow> Inl e | Inr c' \<Rightarrow> interleaved_run c' ys)"
  by (induction xs arbitrary: c) (simp_all split: sum.splits)

text \<open>The stores of a handler, performed in order, give what the handler gives.\<close>

lemma setIsMoving_stores_fold:
  "fold apply_store (setIsMoving_stores i v) s = setIsMoving i v s"
  by (simp add: setIsMoving_stores_def setIsMoving_def Let_def)

lemma keyAction_stores_eq:
  "keyAction index v s =
     (case keyAction_stores index v of Inl e \<Rightarrow> Inl e | Inr ws \<Rightarrow> Inr (fold apply_store ws s))"
  by (simp add: keyAction_def keyAction_stores_def setIsMoving_stores_fold)

lemma handleKeyEvent_stores_eq:
  "handleKeyEvent ev s =
     (case handleKeyEvent_stores ev s of Inl e \<Rightarrow> Inl e | Inr ws \<Rightarrow> Inr (fold apply_store ws s))"
  by (simp add: handleKeyEvent_def handleKeyEvent_stores_def Let_def keyAction_stores_eq)

lemma handleLEDEvent_stores_eq:
  "handleLEDEvent ev s = fold apply_store (handleLEDEvent_stores ev) s"
  by (simp add: handleLEDEvent_def handleLEDEvent_stores_def upt_DIRECTION_NUM
      setIsMoving_stores_fold)

lemma handleEvent_stores_eq:
  "handleEvent ev s =
     (case handleEvent_stores ev s of Inl e \<Rightarrow> Inl e | Inr ws \<Rightarrow> Inr (fold apply_store ws s))"
  by (simp add: handleEvent_def handleEvent_stores_def handleKeyEvent_stores_eq
      handleLEDEvent_stores_eq)

lemma handleEvent_stores_length:
  "handleEvent_stores ev s = Inr ws \<Longrightarrow> length ws \<le> 9"
  by (auto simp: handleEvent_stores_def handleKeyEvent_stores_def keyAction_stores_def
      handleLEDEvent_stores_def setIsMoving_stores_def Let_def upt_DIRECTION_NUM
      split: if_splits)

lemma drain_pending:
  "length (pending c) \<le> n \<Longrightarrow>
   interleaved_run c (replicate n Dispatch_store) =
     Inr (c\<lparr>shared := fold apply_store (pending c) (shared c), pending := []\<rparr>)"
proof (induction n arbitrary: c)
  case 0
  then show ?case by simp
next
  case (Suc n)
  show ?case
  proof (cases "pending c")
    case Nil
    with Suc.IH [of c] show ?thesis by (simp add: interleaved_step_def)
  next
    case (Cons w ws)
    with Suc.prems Suc.IH [of "c\<lparr>shared := apply_store w (shared c), pending := ws\<rparr>"]
    show ?thesis by (simp add: interleaved_step_def)
  qed
qed

lemma event_sim:
  assumes "pending c = []"
  shows "interleaved_run c (event_schedule ev) =
     (case handleEvent ev (shared c) of Inl e \<Rightarrow> Inl e | Inr s' \<Rightarrow> Inr (c\<lparr>shared := s'\<rparr>))"
proof (cases "handleEvent_stores ev (shared c)")
  case (Inl e)
  then show ?thesis
    using assms by (simp add: event_schedule_def interleaved_step_def handleEvent_stores_eq)
next
  case (Inr ws)
  from handleEvent_stores_length [OF this]
  have "length (pending (c\<lparr>pending := ws\<rparr>)) \<le> 9" by simp
  from drain_pending [OF this] show ?thesis
    using assms Inr
    by (simp add: event_schedule_def interleaved_step_def handleEvent_stores_eq)
qed

lemma moveMouse_eq:
  "moveMouse s ret =
     (case writeDevice (calcMoveSteps (incMoveTimes s) (replicate DIRECTION_NUM 0)) ret of
        Inl e \<Rightarrow> Inl e | Inr out \<Rightarrow> Inr (incMoveTimes s, out))"
  by (simp add: moveMouse_def Let_def)

text \<open>A serial run is the run of the two threads on its schedule.\<close>

lemma serialise_sim:
  assumes "tick c = ticker_idle" and "pending c = []"
  shows "(case interleaved_run c (serialise (shared c) ins) of
            Inl e \<Rightarrow> Inl e | Inr c' \<Rightarrow> Inr (shared c'))
         = serial_run (shared c) ins"
  using assms
proof (induction ins arbitrary: c)
  case Nil
  then show ?case by simp
next
  case (Cons i ins)
  show ?case
  proof (cases i)
    case (Event ev)
    show ?thesis
    proof (cases "handleEvent ev (shared c)")
      case (Inl e)
      then show ?thesis
        using Cons.prems by (simp add: Event interleaved_run_append event_sim serial_step_def)
    next
      case (Inr s')
      have "tick (c\<lparr>shared := s'\<rparr>) = ticker_idle" "pending (c\<lparr>shared := s'\<rparr>) = []"
        using Cons.prems by simp_all
      from Cons.IH [OF this] show ?thesis
        using Cons.prems Inr by (simp add: Event interleaved_run_append event_sim serial_step_def)
    qed
  next
    case (Tick ret)
    show ?thesis
    proof (cases "writeDevice (calcMoveSteps (incMoveTimes (shared c)) (replicate DIRECTION_NUM 0)) ret")
      case (Inl e)
      then show ?thesis
        using Cons.prems
        by (simp add: Tick interleaved_run_append tick_sim serial_step_def moveMouse_eq)
    next
      case (Inr out)
      define c' where "c' = c\<lparr>shared := incMoveTimes (shared c), emitted := emitted c @ [out]\<rparr>"
      have "tick c' = ticker_idle" "pending c' = []"
        using Cons.prems by (simp_all add: c'_def)
      from Cons.IH [OF this] show ?thesis
        using Cons.prems Inr
        by (simp add: Tick interleaved_run_append tick_sim serial_step_def moveMouse_eq c'_def)
    qed
  qed
qed


section \<open>Claims about one tick of the emitter\<close>

lemma fold_update_length:
  "length (fold (\<lambda>i st. if P i then st[i := f i] else st) js steps) = length steps"
  by (induction js arbitrary: steps) simp_all

lemma calcMoveSteps_length:
  "length (calcMoveSteps s steps) = length steps"
  by (simp add: calcMoveSteps_def Let_def fold_update_length)

lemma moveMouse_out:
  assumes "moveMouse s ret = Inr (s', out)"
  shows "out =
     (let st = calcMoveSteps (incMoveTimes s) (replicate DIRECTION_NUM 0)
      in [\<lparr>ev_type = EV_REL, ev_code = REL_X, ev_value = word_of_int (st ! RIGHT - st ! LEFT)\<rparr>,
          \<lparr>ev_type = EV_REL, ev_code = REL_Y, ev_value = word_of_int (st ! DOWN - st ! UP)\<rparr>,
          \<lparr>ev_type = EV_SYN, ev_code = SYN_REPORT, ev_value = 0\<rparr>])"
  using assms
  by (auto simp: moveMouse_def writeDevice_def Let_def split: sum.splits if_splits)

lemma calcMoveSteps_cancel_vertical:
  assumes "length steps = DIRECTION_NUM" and "isMoving s ! UP" and "isMoving s ! DOWN"
  shows "calcMoveSteps s steps ! UP = 0" and "calcMoveSteps s steps ! DOWN = 0"
proof -
  define st0 where
    "st0 = fold (\<lambda>i st. if isMoving s ! i
                          then st[i := moveStep (sint (moveTimes s ! i))] else st)
             [0..<DIRECTION_NUM] steps"
  have len: "length st0 = 4"
    using assms(1) by (simp add: st0_def fold_update_length DIRECTION_NUM_def)
  have calc: "calcMoveSteps s steps =
      (if isMoving s ! LEFT \<and> isMoving s ! RIGHT
       then st0[UP := 0, DOWN := 0, LEFT := 0, RIGHT := 0] else st0[UP := 0, DOWN := 0])"
    using assms(2,3) by (simp add: calcMoveSteps_def Let_def st0_def)
  show "calcMoveSteps s steps ! UP = 0" and "calcMoveSteps s steps ! DOWN = 0"
    unfolding calc by (simp_all add: len UP_def DOWN_def LEFT_def RIGHT_def)
qed

lemma calcMoveSteps_cancel_horizontal:
  assumes "length steps = DIRECTION_NUM" and "isMoving s ! LEFT" and "isMoving s ! RIGHT"
  shows "calcMoveSteps s steps ! LEFT = 0" and "calcMoveSteps s steps ! RIGHT = 0"
proof -
  define st1 where
    "st1 = (let st0 = fold (\<lambda>i st. if isMoving s ! i
                          then st[i := moveStep (sint (moveTimes s ! i))] else st)
             [0..<DIRECTION_NUM] steps
            in if isMoving s ! UP \<and> isMoving s ! DOWN then st0[UP := 0, DOWN := 0] else st0)"
  have len: "length st1 = 4"
    using assms(1) by (simp add: st1_def Let_def fold_update_length DIRECTION_NUM_def)
  have calc: "calcMoveSteps s steps = st1[LEFT := 0, RIGHT := 0]"
    using assms(2,3) by (simp add: calcMoveSteps_def Let_def st1_def)
  show "calcMoveSteps s steps ! LEFT = 0" and "calcMoveSteps s steps ! RIGHT = 0"
    unfolding calc by (simp_all add: len LEFT_def RIGHT_def)
qed

text \<open>
  Claim C2. On every emitter tick, if Up and Down are both active then the
  contributions of both directions are forced to exactly 0, each on its own and for
  any hold durations, and the emitted vertical displacement is 0; independently, the
  same holds for Left and Right and the horizontal displacement. The first two
  conjuncts are about \<open>calcMoveSteps\<close> on any four-element \<open>steps\<close> array, the last
  two about the \<^verbatim>\<open>REL_Y\<close> and \<^verbatim>\<open>REL_X\<close> records that \<open>moveMouse\<close> writes.
\<close>

theorem opposite_cancellation:
  "(length steps = DIRECTION_NUM \<and> isMoving s ! UP \<and> isMoving s ! DOWN \<longrightarrow>
      calcMoveSteps s steps ! UP = 0 \<and> calcMoveSteps s steps ! DOWN = 0) \<and>
   (length steps = DIRECTION_NUM \<and> isMoving s ! LEFT \<and> isMoving s ! RIGHT \<longrightarrow>
      calcMoveSteps s steps ! LEFT = 0 \<and> calcMoveSteps s steps ! RIGHT = 0) \<and>
   (moveMouse s ret = Inr (s', out) \<and> isMoving s ! UP \<and> isMoving s ! DOWN \<longrightarrow>
      out ! 1 = \<lparr>ev_type = EV_REL, ev_code = REL_Y, ev_value = 0\<rparr>) \<and>
   (moveMouse s ret = Inr (s', out) \<and> isMoving s ! LEFT \<and> isMoving s ! RIGHT \<longrightarrow>
      out ! 0 = \<lparr>ev_type = EV_REL, ev_code = REL_X, ev_value = 0\<rparr>)"
proof -
  have len: "length (replicate DIRECTION_NUM (0::int)) = DIRECTION_NUM" by simp
  have v: "out ! 1 = \<lparr>ev_type = EV_REL, ev_code = REL_Y, ev_value = 0\<rparr>"
    if "moveMouse s ret = Inr (s', out)" "isMoving s ! UP" "isMoving s ! DOWN"
    using calcMoveSteps_cancel_vertical [OF len, of "incMoveTimes s"] that(2,3)
    unfolding moveMouse_out [OF that(1)] Let_def by simp
  have h: "out ! 0 = \<lparr>ev_type = EV_REL, ev_code = REL_X, ev_value = 0\<rparr>"
    if "moveMouse s ret = Inr (s', out)" "isMoving s ! LEFT" "isMoving s ! RIGHT"
    using calcMoveSteps_cancel_horizontal [OF len, of "incMoveTimes s"] that(2,3)
    unfolding moveMouse_out [OF that(1)] Let_def by simp
  show ?thesis
    using calcMoveSteps_cancel_vertical [of steps s] calcMoveSteps_cancel_horizontal [of steps s]
      v h
    by blast
qed

text \<open>
  Witness for C2: with all four keys held at different hold durations every
  contribution is 0, whatever the array held before, and the tick writes \<open>(0, 0)\<close>.
\<close>

theorem opposite_cancellation_witness:
  "length [7, 7, 7, 7 :: int] = DIRECTION_NUM \<and>
   isMoving all_held ! UP \<and> isMoving all_held ! DOWN \<and>
   isMoving all_held ! LEFT \<and> isMoving all_held ! RIGHT \<and>
   calcMoveSteps all_held [7, 7, 7, 7] = [0, 0, 0, 0] \<and>
   moveMouse all_held 72 =
     Inr (all_held\<lparr>moveTimes := [251, 4, 41, 301]\<rparr>,
          [\<lparr>ev_type = EV_REL, ev_code = REL_X, ev_value = 0\<rparr>,
           \<lparr>ev_type = EV_REL, ev_code = REL_Y, ev_value = 0\<rparr>,
           \<lparr>ev_type = EV_SYN, ev_code = SYN_REPORT, ev_value = 0\<rparr>])"
proof -
  have held: "isMoving all_held ! UP" "isMoving all_held ! DOWN"
    "isMoving all_held ! LEFT" "isMoving all_held ! RIGHT"
    by (simp_all add: all_held_def dir_defs)
  have len: "length [7, 7, 7, 7 :: int] = DIRECTION_NUM"
    by (simp add: DIRECTION_NUM_def)
  have len': "length (calcMoveSteps all_held [7, 7, 7, 7]) = 4"
    by (simp add: calcMoveSteps_length)
  have mm: "moveMouse all_held 72 =
     Inr (all_held\<lparr>moveTimes := [251, 4, 41, 301]\<rparr>,
          [\<lparr>ev_type = EV_REL, ev_code = REL_X, ev_value = 0\<rparr>,
           \<lparr>ev_type = EV_REL, ev_code = REL_Y, ev_value = 0\<rparr>,
           \<lparr>ev_type = EV_SYN, ev_code = SYN_REPORT, ev_value = 0\<rparr>])"
    by code_simp
  from opposite_cancellation [of "[7, 7, 7, 7]" all_held] held len
  have "calcMoveSteps all_held [7, 7, 7, 7] ! 0 = 0" "calcMoveSteps all_held [7, 7, 7, 7] ! 1 = 0"
    "calcMoveSteps all_held [7, 7, 7, 7] ! 2 = 0" "calcMoveSteps all_held [7, 7, 7, 7] ! 3 = 0"
    by (simp_all add: dir_defs)
  with len' have "calcMoveSteps all_held [7, 7, 7, 7] = [0, 0, 0, 0]"
    by (auto simp: length_4)
  with held len mm show ?thesis by simp
qed


section \<open>Claims about the key state\<close>

text \<open>
  Claim C3, as stated, fails: it asks that \<open>setActive\<close> reset \<open>holdTicks\<close> to 0 whenever
  the flag changes, from every starting state and on press as well as on release. The
  schedule \<open>race_schedule\<close> runs the two threads from engine start to a state in which
  Up is inactive with counter 1. There a press of keypad 8 changes the flag of Up and
  leaves its counter at 1.
\<close>

theorem press_after_race_keeps_count:
  "interleaved_run (engine_config False) race_schedule = Inr raced_config
   \<and> shared raced_config = raced_state
   \<and> handleEvent (key_event KEY_KP8 1) raced_state = Inr (setIsMoving UP 1 raced_state)
   \<and> isMoving (setIsMoving UP 1 raced_state) ! UP \<noteq> isMoving raced_state ! UP
   \<and> moveTimes (setIsMoving UP 1 raced_state) ! UP \<noteq> 0
   \<and> moveTimes (setIsMoving UP 1 raced_state) ! UP = 1"
proof -
  have "interleaved_run (engine_config False) race_schedule = Inr raced_config"
    by code_simp
  moreover have "shared raced_config = raced_state"
    by (simp add: raced_config_def)
  moreover have "handleEvent (key_event KEY_KP8 1) raced_state = Inr (setIsMoving UP 1 raced_state)"
    by code_simp
  moreover have "isMoving (setIsMoving UP 1 raced_state) ! UP \<noteq> isMoving raced_state ! UP"
    "moveTimes (setIsMoving UP 1 raced_state) ! UP = 1"
    by (simp_all add: raced_state_def UP_def)
  ultimately show ?thesis by simp
qed

text \<open>
  Claim C3, amended. For every direction and every well-formed starting state,
  \<open>setIsMoving\<close> resets the counter to 0 on every release (value 0), whether or not the
  flag changes, and leaves all counters untouched on a press (any nonzero value).
  Hence a change of the flag in either direction ends with counter 0 whenever the
  starting state has counter 0 for that direction while it is inactive. \<open>keyAction\<close>
  maps a press to \<open>setIsMoving i 1\<close> and a release to \<open>setIsMoving i 0\<close>.
\<close>

theorem setIsMoving_reset_on_release:
  assumes "state_ok s" and "i < DIRECTION_NUM"
  shows "moveTimes (setIsMoving i 0 s) ! i = 0 \<and>
         (v \<noteq> 0 \<longrightarrow> moveTimes (setIsMoving i v s) = moveTimes s) \<and>
         ((\<not> isMoving s ! i \<longrightarrow> moveTimes s ! i = 0) \<and>
          isMoving (setIsMoving i v s) ! i \<noteq> isMoving s ! i
            \<longrightarrow> moveTimes (setIsMoving i v s) ! i = 0) \<and>
         keyAction (int i) 1 s = Inr (setIsMoving i 1 s) \<and>
         keyAction (int i) 0 s = Inr (setIsMoving i 0 s)"
proof -
  have len: "i < length (moveTimes s)" "i < length (isMoving s)"
    using assms by (simp_all add: state_ok_def)
  show ?thesis
    using len assms(2) by (auto simp: keyAction_in_range)
qed

text \<open>
  Witness for the amended C3: releasing Left in \<open>left_held\<close> changes its flag and
  clears its counter; pressing Up there changes its flag and finds the counter at 0.
\<close>

theorem setIsMoving_reset_on_release_witness:
  "state_ok left_held \<and> LEFT < DIRECTION_NUM \<and>
   isMoving (setIsMoving LEFT 0 left_held) ! LEFT \<noteq> isMoving left_held ! LEFT \<and>
   moveTimes (setIsMoving LEFT 0 left_held) ! LEFT = 0 \<and>
   \<not> isMoving left_held ! UP \<and> moveTimes left_held ! UP = 0 \<and>
   isMoving (setIsMoving UP 1 left_held) ! UP \<noteq> isMoving left_held ! UP \<and>
   moveTimes (setIsMoving UP 1 left_held) ! UP = 0"
proof -
  have ok: "state_ok left_held"
    by (simp add: left_held_def state_ok_def DIRECTION_NUM_def)
  have flags: "isMoving (setIsMoving LEFT 0 left_held) ! LEFT \<noteq> isMoving left_held ! LEFT"
    "isMoving (setIsMoving UP 1 left_held) ! UP \<noteq> isMoving left_held ! UP"
    "\<not> isMoving left_held ! UP" "moveTimes left_held ! UP = 0"
    by (simp_all add: left_held_def dir_defs)
  show ?thesis
    using setIsMoving_reset_on_release [OF ok, of LEFT 0]
      setIsMoving_reset_on_release [OF ok, of UP 1] ok flags
    by simp
qed

section \<open>Claims about the NumLock LED\<close>

text \<open>
  Claim C5, as stated, fails: it asks that every NumLock LED event with a nonzero
  value, value 2 included, set the gate to blocking. With the gate off, the event with
  value 2 leaves the state as it is and the gate stays off.
\<close>

theorem led_value_two_ignored:
  "ev_value (led_event LED_NUML 2) \<noteq> 0
   \<and> handleEvent (led_event LED_NUML 2) (engine_start False) = Inr (engine_start False)
   \<and> \<not> numlockOn (handleLEDEvent (led_event LED_NUML 2) (engine_start False))"
  by (simp add: handleEvent_def handleLEDEvent_def led_event_def engine_start_eq
      EV_KEY_def EV_LED_def LED_NUML_def)

text \<open>
  Claim C5, amended. For every LED event carrying the NumLock code the dispatcher
  calls \<open>handleLEDEvent\<close>: value 0 sets the gate to not blocking and changes nothing
  else; value 1 sets the gate to blocking and forces every direction to inactive with
  counter 0; any other value leaves the whole state unchanged.
\<close>

theorem handleLEDEvent_numlock:
  assumes "ev_type ev = EV_LED" and "ev_code ev = LED_NUML"
  shows "handleEvent ev s = Inr (handleLEDEvent ev s) \<and>
         (ev_value ev = 0 \<longrightarrow> handleLEDEvent ev s = s\<lparr>numlockOn := False\<rparr>) \<and>
         (ev_value ev = 1 \<longrightarrow>
            numlockOn (handleLEDEvent ev s) \<and> (state_ok s \<longrightarrow> all_neutral (handleLEDEvent ev s))) \<and>
         (ev_value ev \<noteq> 0 \<and> ev_value ev \<noteq> 1 \<longrightarrow> handleLEDEvent ev s = s)"
proof -
  have "handleEvent ev s = Inr (handleLEDEvent ev s)"
    using assms(1) by (simp add: handleEvent_def EV_KEY_def EV_LED_def)
  moreover have "ev_value ev = 0 \<longrightarrow> handleLEDEvent ev s = s\<lparr>numlockOn := False\<rparr>"
    using assms(2) by (simp add: handleLEDEvent_def)
  moreover have "ev_value ev = 1 \<longrightarrow>
      numlockOn (handleLEDEvent ev s) \<and> (state_ok s \<longrightarrow> all_neutral (handleLEDEvent ev s))"
    using handleLEDEvent_on_neutral(3) [OF assms(2), of s]
    by (auto simp: handleLEDEvent_on [OF assms(2)])
  moreover have "ev_value ev \<noteq> 0 \<and> ev_value ev \<noteq> 1 \<longrightarrow> handleLEDEvent ev s = s"
    using assms(2) by (simp add: handleLEDEvent_def)
  ultimately show ?thesis by blast
qed

text \<open>
  Witness for the amended C5: value 1 on \<open>left_held\<close> gives \<open>locked_state\<close>, value 0
  unlocks it again, and value 2 on \<open>left_held\<close> changes nothing.
\<close>

theorem handleLEDEvent_numlock_witness:
  "ev_type (led_event LED_NUML 1) = EV_LED \<and> ev_code (led_event LED_NUML 1) = LED_NUML \<and>
   ev_value (led_event LED_NUML 1) = 1 \<and> state_ok left_held \<and>
   handleEvent (led_event LED_NUML 1) left_held = Inr locked_state \<and>
   numlockOn locked_state \<and>
   handleEvent (led_event LED_NUML 0) locked_state = Inr (locked_state\<lparr>numlockOn := False\<rparr>) \<and>
   handleEvent (led_event LED_NUML 2) left_held = Inr left_held"
proof -
  have ok: "state_ok left_held"
    by (simp add: left_held_def state_ok_def DIRECTION_NUM_def)
  have on: "handleLEDEvent (led_event LED_NUML 1) left_held = locked_state"
    by code_simp
  have ev: "ev_type (led_event LED_NUML v) = EV_LED" "ev_code (led_event LED_NUML v) = LED_NUML"
    "ev_value (led_event LED_NUML v) = v" for v
    by (simp_all add: led_event_def)
  show ?thesis
    using handleLEDEvent_numlock [OF ev(1,2), of 1 left_held]
      handleLEDEvent_numlock [OF ev(1,2), of 0 locked_state]
      handleLEDEvent_numlock [OF ev(1,2), of 2 left_held] ok
    by (simp add: ev on)
qed


section \<open>Claims about the NumLock gate\<close>





section \<open>Claims about the emission write\<close>

lemma writeDevice_result:
  "writeDevice steps ret =
     (if ret = int (3 * sizeof_input_event)
      then Inr [\<lparr>ev_type = EV_REL, ev_code = REL_X,
                  ev_value = word_of_int (steps ! RIGHT - steps ! LEFT)\<rparr>,
                \<lparr>ev_type = EV_REL, ev_code = REL_Y,
                  ev_value = word_of_int (steps ! DOWN - steps ! UP)\<rparr>,
                \<lparr>ev_type = EV_SYN, ev_code = SYN_REPORT, ev_value = 0\<rparr>]
      else Inl Exit_Failure)"
  by (simp add: writeDevice_def Let_def)

lemma moveMouse_failed_write:
  "ret \<noteq> int (3 * sizeof_input_event) \<Longrightarrow> moveMouse s ret = Inl Exit_Failure"
  by (simp add: moveMouse_def Let_def writeDevice_result)

lemma moveMouse_full_write:
  "ret = int (3 * sizeof_input_event) \<Longrightarrow> \<exists>out. moveMouse s ret = Inr (incMoveTimes s, out)"
  by (simp add: moveMouse_def Let_def writeDevice_result)

lemma moveMouseThread_stops:
  assumes "\<forall>r\<in>set oks. r = int (3 * sizeof_input_event)"
    and "ret \<noteq> int (3 * sizeof_input_event)"
  shows "snd (moveMouseThread s (oks @ ret # rets)) = Inl Exit_Failure \<and>
         length (fst (moveMouseThread s (oks @ ret # rets))) = length oks"
  using assms(1)
proof (induction oks arbitrary: s)
  case Nil
  then show ?case by (simp add: moveMouse_failed_write [OF assms(2)])
next
  case (Cons r oks)
  then have "r = int (3 * sizeof_input_event)" by simp
  from moveMouse_full_write [OF this, of s]
  obtain out where m: "moveMouse s r = Inr (incMoveTimes s, out)" ..
  from Cons have "snd (moveMouseThread (incMoveTimes s) (oks @ ret # rets)) = Inl Exit_Failure \<and>
         length (fst (moveMouseThread (incMoveTimes s) (oks @ ret # rets))) = length oks"
    by simp
  then show ?case by (auto simp: m split: prod.splits)
qed

text \<open>
  Claim C8. If the single write of the three event records does not complete in
  full, that is, if the number of bytes written differs from the size of the three
  records, the program terminates fatally: \<open>writeDevice\<close>, the tick, the serial run and
  the step of the tick thread at its \<^verbatim>\<open>write\<close> end in \<open>Exit_Failure\<close>. The partial emission is neither accepted nor retried: after any
  number of complete writes, the loop of \<open>moveMouseThread\<close> stops at the first
  incomplete one, having emitted only the complete ones and without making another
  \<^verbatim>\<open>write\<close> call.
\<close>

theorem partial_write_is_fatal:
  assumes "ret \<noteq> int (3 * sizeof_input_event)"
  shows "writeDevice steps ret = Inl Exit_Failure \<and>
         moveMouse s ret = Inl Exit_Failure \<and>
         serial_run s (Tick ret # ins) = Inl Exit_Failure \<and>
         ((\<forall>r\<in>set oks. r = int (3 * sizeof_input_event)) \<longrightarrow>
            snd (moveMouseThread s (oks @ ret # rets)) = Inl Exit_Failure \<and>
            length (fst (moveMouseThread s (oks @ ret # rets))) = length oks) \<and>
         (tpc (tick c) = Write_device \<longrightarrow>
            interleaved_run c (Tick_step ret # sched) = Inl Exit_Failure)"
  using assms moveMouseThread_stops [of oks ret s rets]
  by (simp add: writeDevice_result moveMouse_failed_write serial_step_def
      interleaved_step_def tick_step_def Let_def)

text \<open>
  Witness for C8: a write that reports 48 of 72 bytes, after two complete writes, ends
  the loop with two emissions; the write result that follows is never used.
\<close>

theorem partial_write_is_fatal_witness:
  "(48::int) \<noteq> int (3 * sizeof_input_event) \<and>
   (72::int) = int (3 * sizeof_input_event) \<and>
   writeDevice [0, 0, 0, 1] 48 = Inl Exit_Failure \<and>
   moveMouse left_held 48 = Inl Exit_Failure \<and>
   serial_run left_held [Tick 48, Tick 72] = Inl Exit_Failure \<and>
   snd (moveMouseThread left_held ([72, 72] @ 48 # [72])) = Inl Exit_Failure \<and>
   length (fst (moveMouseThread left_held ([72, 72] @ 48 # [72]))) = 2 \<and>
   tpc (tick writing_config) = Write_device \<and>
   interleaved_run writing_config (Tick_step 48 # [Tick_step 72]) = Inl Exit_Failure"
proof -
  have bad: "(48::int) \<noteq> int (3 * sizeof_input_event)"
    by (simp add: sizeof_input_event_def)
  have size: "(72::int) = int (3 * sizeof_input_event)"
    by (simp add: sizeof_input_event_def)
  have good: "\<forall>r\<in>set [72, 72]. r = int (3 * sizeof_input_event)"
    by (simp add: sizeof_input_event_def)
  have wr: "tpc (tick writing_config) = Write_device"
    by (simp add: writing_config_def)
  have rest: "writeDevice [0, 0, 0, 1] 48 = Inl Exit_Failure \<and>
   moveMouse left_held 48 = Inl Exit_Failure \<and>
   serial_run left_held [Tick 48, Tick 72] = Inl Exit_Failure \<and>
   snd (moveMouseThread left_held ([72, 72] @ 48 # [72])) = Inl Exit_Failure \<and>
   length (fst (moveMouseThread left_held ([72, 72] @ 48 # [72]))) = 2 \<and>
   tpc (tick writing_config) = Write_device \<and>
   interleaved_run writing_config (Tick_step 48 # [Tick_step 72]) = Inl Exit_Failure"
    using partial_write_is_fatal [OF bad, of "[0, 0, 0, 1]" left_held "[Tick 72]" "[72, 72]" "[72]"
        writing_config "[Tick_step 72]"]
      good wr
    by simp
  show ?thesis
    by (rule conjI [OF bad conjI [OF size rest]])
qed

section \<open>Claims about the two threads\<close>

text \<open>
  In a serial run an inactive direction has counter 0, and a press, which leaves the
  counters as they are, starts from 0.
\<close>

lemma serial_run_idle_zero:
  assumes "serial_run (engine_start q) ins = Inr s" and "i < DIRECTION_NUM"
    and "\<not> isMoving s ! i"
  shows "moveTimes s ! i = 0 \<and>
         keyAction (int i) 1 s = Inr (setIsMoving i 1 s) \<and>
         isMoving (setIsMoving i 1 s) ! i \<and>
         moveTimes (setIsMoving i 1 s) = moveTimes s \<and>
         moveTimes (setIsMoving i 1 s) ! i = 0"
proof -
  from serial_run_inv [OF engine_start_inv assms(1)]
  have ok: "state_ok s" and idle: "idle_zero s" by (simp_all add: engine_inv_def)
  from idle assms(2,3) have z: "moveTimes s ! i = 0" by (simp add: idle_zero_def)
  have "i < length (isMoving s)" using ok assms(2) by (simp add: state_ok_def)
  then show ?thesis using z assms(2) by (simp add: keyAction_in_range)
qed

lemma serial_run_demo: "serial_run (engine_start False) demo_inputs = Inr demo_state"
  by code_simp

text \<open>
  Claim C10 asks that in every state reached from engine start by key events, LED
  events and ticks an inactive direction have counter 0, so that a press starts from
  0. The code at the schedule \<open>race_schedule\<close>: the release of keypad 8 is handled
  between the test of line 385 and the increment of line 387, Up ends inactive with
  counter 1, and the next press of keypad 8 makes Up active with counter 1.
\<close>

theorem release_inside_increment_leaves_count:
  "interleaved_run (engine_config False) race_schedule = Inr raced_config
   \<and> \<not> isMoving (shared raced_config) ! UP
   \<and> moveTimes (shared raced_config) ! UP = 1
   \<and> interleaved_run raced_config [Dispatch_event (key_event KEY_KP8 1), Dispatch_store]
       = Inr repressed_config
   \<and> isMoving (shared repressed_config) ! UP
   \<and> moveTimes (shared repressed_config) ! UP = 1"
proof -
  have "interleaved_run (engine_config False) race_schedule = Inr raced_config"
    by code_simp
  moreover have
    "interleaved_run raced_config [Dispatch_event (key_event KEY_KP8 1), Dispatch_store]
       = Inr repressed_config"
    by code_simp
  moreover have "\<not> isMoving (shared raced_config) ! UP" "moveTimes (shared raced_config) ! UP = 1"
    "isMoving (shared repressed_config) ! UP" "moveTimes (shared repressed_config) ! UP = 1"
    by (simp_all add: raced_config_def repressed_config_def raced_state_def UP_def)
  ultimately show ?thesis by simp
qed

text \<open>
  Claim C9, as stated, fails: it asks that within every emission the cancellation and
  the acceleration computation work on one atomic snapshot of the four directions.
  From \<open>right_config\<close> (keypad 6 held, reached from engine start), the schedule
  \<open>mix_schedule\<close> lets the dispatch thread handle a press of keypad 8 and a release of
  keypad 6 after the tick thread has read \<^verbatim>\<open>isMoving[UP]\<close> and before it reads
  \<^verbatim>\<open>isMoving[RIGHT]\<close>. The tick writes \<open>(0, 0)\<close>: the flag of Up from before the events,
  the flag of Right from after them. Every shared state that the tick passes through
  has a key held, and a snapshot of any of them would write a nonzero displacement.
\<close>

theorem tick_mixes_states:
  "interleaved_run (engine_config False) press_right_schedule = Inr right_config
   \<and> tick right_config = ticker_idle
   \<and> interleaved_run right_config mix_schedule = Inr mixed_config
   \<and> tick mixed_config = ticker_idle
   \<and> emitted mixed_config = [rel_emission 0 0]
   \<and> map (snapshot_emission 72) (remdups (shared_trace right_config mix_schedule)) =
       [Inr (rel_emission 1 0), Inr (rel_emission 1 0), Inr (rel_emission 1 (- 1)),
        Inr (rel_emission 0 (- 1)), Inr (rel_emission 0 (- 1))]
   \<and> Inr (rel_emission 0 0)
       \<notin> set (map (snapshot_emission 72) (remdups (shared_trace right_config mix_schedule)))"
proof -
  have a: "interleaved_run (engine_config False) press_right_schedule = Inr right_config"
    by code_simp
  have b: "interleaved_run right_config mix_schedule = Inr mixed_config"
    by code_simp
  have c: "tick right_config = ticker_idle" "tick mixed_config = ticker_idle"
    by (simp_all add: right_config_def mixed_config_def)
  have d: "emitted mixed_config = [rel_emission 0 0]"
    by (simp add: mixed_config_def)
  have e: "map (snapshot_emission 72) (remdups (shared_trace right_config mix_schedule)) =
       [Inr (rel_emission 1 0), Inr (rel_emission 1 0), Inr (rel_emission 1 (- 1)),
        Inr (rel_emission 0 (- 1)), Inr (rel_emission 0 (- 1))]"
    by code_simp
  have f: "Inr (rel_emission 0 0)
       \<notin> set (map (snapshot_emission 72) (remdups (shared_trace right_config mix_schedule)))"
    unfolding e by (simp add: rel_emission_def)
  from a b c d e f show ?thesis by blast
qed

text \<open>
  Claim C9, amended. Within a single emission that no store of the dispatch loop
  interrupts, the cancellation and the acceleration computation work on one state:
  starting at the beginning of \<open>moveMouse\<close> in any configuration, the accesses of one
  tick write exactly what \<open>writeDevice\<close> makes of \<open>calcMoveSteps\<close> on the shared state
  with the counters of its active directions incremented, and leave that state. The
  code takes no snapshot; it reads \<open>isMoving\<close> and \<open>moveTimes\<close> in place.
\<close>

theorem uninterrupted_tick_uses_one_state:
  assumes "tick c = ticker_idle"
  shows "interleaved_run c (replicate (tick_len (shared c)) (Tick_step ret)) =
     (case writeDevice (calcMoveSteps (incMoveTimes (shared c)) (replicate DIRECTION_NUM 0)) ret of
        Inl e \<Rightarrow> Inl e
      | Inr out \<Rightarrow> Inr (c\<lparr>shared := incMoveTimes (shared c), emitted := emitted c @ [out]\<rparr>))"
  using assms by (rule tick_sim)

text \<open>
  Witness for the amended C9: with all four keys held the tick makes 21 accesses,
  increments the four counters and writes \<open>(0, 0)\<close>.
\<close>

theorem uninterrupted_tick_uses_one_state_witness:
  "tick held_config = ticker_idle \<and>
   tick_len (shared held_config) = 21 \<and>
   interleaved_run held_config (replicate 21 (Tick_step 72)) =
     Inr (held_config
            \<lparr>shared := all_held\<lparr>moveTimes := [251, 4, 41, 301]\<rparr>,
             emitted := [rel_emission 0 0]\<rparr>)"
proof -
  have idle: "tick held_config = ticker_idle"
    by (simp add: held_config_def)
  have len: "tick_len (shared held_config) = 21"
    by code_simp
  have inc: "incMoveTimes (shared held_config) = all_held\<lparr>moveTimes := [251, 4, 41, 301]\<rparr>"
    by code_simp
  have wr: "writeDevice (calcMoveSteps (all_held\<lparr>moveTimes := [251, 4, 41, 301]\<rparr>)
              (replicate DIRECTION_NUM 0)) 72 =
            Inr (rel_emission 0 0)"
    by code_simp
  have em: "emitted held_config = []"
    by (simp add: held_config_def)
  show ?thesis
    using uninterrupted_tick_uses_one_state [OF idle, of 72] idle len
    by (simp add: inc wr em)
qed

end
